theory Spec2Isabelle
  imports Complex_Main "HOL-Library.Sublist" "HOL-Library.Log_Nat"
begin

section \<open>Strings of the host language\<close>

text \<open>
  A JavaScript string is modelled as a \<^typ>\<open>string\<close>: the list of its code units, for
  code units below 256 (ASCII and the Latin-1 supplement). Every string literal of the
  sources lies in that range.
\<close>

definition code_unit :: "char \<Rightarrow> nat" where
  "code_unit c = of_char c"

text \<open>
  \<^verbatim>\<open>String.prototype.toLowerCase\<close>: on the modelled range the letters with a distinct
  lower case are A to Z and the Latin-1 capitals 0xC0 to 0xDE without the
  multiplication sign 0xD7; each lower case lies 32 above.
\<close>

definition lower_char :: "char \<Rightarrow> char" where
  "lower_char c =
     (let n = code_unit c
      in if (65 \<le> n \<and> n \<le> 90) \<or> (192 \<le> n \<and> n \<le> 222 \<and> n \<noteq> 215)
         then char_of (n + 32) else c)"

definition toLowerCase :: "string \<Rightarrow> string" where
  "toLowerCase s = map lower_char s"

text \<open>\<^verbatim>\<open>s.startsWith(t)\<close> and \<^verbatim>\<open>s.includes(t)\<close>: \<open>t\<close> occurs at the front of, or
  somewhere in, \<open>s\<close>.\<close>

fun startsWith :: "string \<Rightarrow> string \<Rightarrow> bool" where
  "startsWith s [] = True"
| "startsWith [] (t # ts) = False"
| "startsWith (c # cs) (t # ts) = (c = t \<and> startsWith cs ts)"

fun includes_js :: "string \<Rightarrow> string \<Rightarrow> bool" where
  "includes_js [] t = (t = [])"
| "includes_js (c # cs) t = (startsWith (c # cs) t \<or> includes_js cs t)"

text \<open>
  \<^verbatim>\<open>String.prototype.trim\<close> removes white space and line terminators from both ends.
  Below 256 these are tab, line feed, vertical tab, form feed, carriage return, space
  and the no-break space 0xA0.
\<close>

definition is_js_space :: "char \<Rightarrow> bool" where
  "is_js_space c = (code_unit c \<in> {9, 10, 11, 12, 13, 32, 160})"

definition trim :: "string \<Rightarrow> string" where
  "trim s = rev (dropWhile is_js_space (rev (dropWhile is_js_space s)))"

section \<open>utils/webSearchDetection.js\<close>

definition webSearchTriggers :: "string list" where
  "webSearchTriggers =
     [''current'', ''latest'', ''recent'', ''today'', ''news'', ''update'',
      ''what is happening'', ''developments'', ''trend'', ''weather'',
      ''stock'', ''price'', ''market'', ''comparison'', ''versus'', ''vs'',
      ''outside'', ''online'', ''web'', ''internet'', ''search'']"

text \<open>
  The two regular expressions of the source have neither anchors nor quantifiers, so
  \<^verbatim>\<open>re.test(s)\<close> holds exactly when one of the alternatives occurs in \<open>s\<close>.
  \<^verbatim>\<open>/today|now|current|latest|recent|this (week|month|year)/\<close> and
  \<^verbatim>\<open>/what|who|when|where|why|how/\<close> are kept as the lists of their alternatives, the
  group \<^verbatim>\<open>this (week|month|year)\<close> written out.
\<close>

definition timeReferencePattern :: "string list" where
  "timeReferencePattern =
     [''today'', ''now'', ''current'', ''latest'', ''recent'',
      ''this week'', ''this month'', ''this year'']"

definition questionPattern :: "string list" where
  "questionPattern = [''what'', ''who'', ''when'', ''where'', ''why'', ''how'']"

definition regex_test :: "string list \<Rightarrow> string \<Rightarrow> bool" where
  "regex_test alternatives s = list_ex (\<lambda>a. includes_js s a) alternatives"

definition hasTimeReference :: "string \<Rightarrow> bool" where
  "hasTimeReference lowerMessage = regex_test timeReferencePattern lowerMessage"

definition hasTriggerWord :: "string \<Rightarrow> bool" where
  "hasTriggerWord lowerMessage =
     list_ex (\<lambda>trigger. includes_js lowerMessage trigger) webSearchTriggers"

definition isQuestionAboutWorld :: "string \<Rightarrow> bool" where
  "isQuestionAboutWorld lowerMessage =
     (regex_test questionPattern lowerMessage \<and>
      \<not> includes_js lowerMessage ''document'' \<and> \<not> includes_js lowerMessage ''file'')"

definition needsWebSearch :: "string \<Rightarrow> bool" where
  "needsWebSearch message =
     (let lowerMessage = toLowerCase message
      in hasTimeReference lowerMessage \<or> hasTriggerWord lowerMessage \<or>
         isQuestionAboutWorld lowerMessage)"

section \<open>The JSON object of the host\<close>

text \<open>
  \<^verbatim>\<open>JSON.parse\<close> and \<^verbatim>\<open>JSON.stringify\<close> belong to the host, not to the
  sources; they are modelled after ECMA-404 and the ECMAScript definition of
  \<^verbatim>\<open>JSON.stringify\<close>. A JSON text is a \<^typ>\<open>string\<close>. In a parsed value a string is
  the list of its code units as natural numbers, since an escape \<^verbatim>\<open>\uXXXX\<close> can name
  any code unit; a number keeps its lexeme; an object keeps its members in the order of
  the text. \<open>Inl SyntaxError\<close> is the \<^verbatim>\<open>SyntaxError\<close> that \<^verbatim>\<open>JSON.parse\<close> throws.
\<close>

datatype exception = SyntaxError | RequestFailed

datatype json =
    JNull
  | JBool bool
  | JNumber string
  | JString "nat list"
  | JArray "json list"
  | JObject "(nat list \<times> json) list"

text \<open>
  Parsing has two passes. The lexer turns the text into tokens: punctuation, strings
  with their escapes resolved, numbers, and the three literals. White space between
  tokens is tab, line feed, carriage return and space.
\<close>

datatype token =
    LBrace | RBrace | LBracket | RBracket | Colon | Comma
  | TString "nat list" | TNumber string | TTrue | TFalse | TNull

definition is_json_space :: "char \<Rightarrow> bool" where
  "is_json_space c = (code_unit c \<in> {9, 10, 13, 32})"

definition is_digit :: "char \<Rightarrow> bool" where
  "is_digit c = (48 \<le> code_unit c \<and> code_unit c \<le> 57)"

definition hex_value :: "char \<Rightarrow> nat option" where
  "hex_value c =
     (let n = code_unit c
      in if 48 \<le> n \<and> n \<le> 57 then Some (n - 48)
         else if 97 \<le> n \<and> n \<le> 102 then Some (n - 87)
         else if 65 \<le> n \<and> n \<le> 70 then Some (n - 55)
         else None)"

definition hex4 :: "char \<Rightarrow> char \<Rightarrow> char \<Rightarrow> char \<Rightarrow> nat option" where
  "hex4 a b c d =
     (case (hex_value a, hex_value b, hex_value c, hex_value d) of
        (Some p, Some q, Some r, Some s) \<Rightarrow> Some (((p * 16 + q) * 16 + r) * 16 + s)
      | _ \<Rightarrow> None)"

definition unescape :: "char \<Rightarrow> nat option" where
  "unescape e =
     (if e = CHR 0x22 then Some 34
      else if e = CHR 0x5C then Some 92
      else if e = CHR ''/'' then Some 47
      else if e = CHR ''b'' then Some 8
      else if e = CHR ''f'' then Some 12
      else if e = CHR ''n'' then Some 10
      else if e = CHR ''r'' then Some 13
      else if e = CHR ''t'' then Some 9
      else None)"

text \<open>
  \<open>lex_string\<close> reads a string after its opening quote and returns its code units
  and the text after the closing quote. A control character below 32, an unknown
  escape and a missing closing quote are syntax errors.
\<close>

definition cons_unit :: "nat \<Rightarrow> exception + (nat list \<times> string) \<Rightarrow> exception + (nat list \<times> string)" where
  "cons_unit u r = (case r of Inl e \<Rightarrow> Inl e | Inr (us, rest) \<Rightarrow> Inr (u # us, rest))"

fun lex_string :: "string \<Rightarrow> exception + (nat list \<times> string)" where
  "lex_string [] = Inl SyntaxError"
| "lex_string (c # cs) =
     (if c = CHR 0x22 then Inr ([], cs)
      else if c = CHR 0x5C then
        (case cs of
           [] \<Rightarrow> Inl SyntaxError
         | e # r \<Rightarrow>
             if e = CHR ''u'' then
               (case r of
                  h1 # h2 # h3 # h4 # r' \<Rightarrow>
                    (case hex4 h1 h2 h3 h4 of
                       None \<Rightarrow> Inl SyntaxError
                     | Some u \<Rightarrow> cons_unit u (lex_string r'))
                | _ \<Rightarrow> Inl SyntaxError)
             else
               (case unescape e of
                  None \<Rightarrow> Inl SyntaxError
                | Some u \<Rightarrow> cons_unit u (lex_string r)))
      else if code_unit c < 32 then Inl SyntaxError
      else cons_unit (code_unit c) (lex_string cs))"

text \<open>
  \<open>lex_number\<close> reads a number by the grammar: an optional minus, an integer part
  without leading zeros, an optional fraction and an optional exponent, each with at
  least one digit.
\<close>

definition lex_digits :: "string \<Rightarrow> (string \<times> string) option" where
  "lex_digits cs =
     (let ds = takeWhile is_digit cs
      in if ds = [] then None else Some (ds, dropWhile is_digit cs))"

definition lex_int :: "string \<Rightarrow> (string \<times> string) option" where
  "lex_int cs =
     (case cs of
        [] \<Rightarrow> None
      | c # r \<Rightarrow> if c = CHR ''0'' then Some ([c], r) else lex_digits cs)"

definition lex_frac :: "string \<Rightarrow> (string \<times> string) option" where
  "lex_frac cs =
     (case cs of
        [] \<Rightarrow> Some ([], cs)
      | c # r \<Rightarrow>
          if c = CHR ''.'' then
            (case lex_digits r of None \<Rightarrow> None | Some (ds, rest) \<Rightarrow> Some (c # ds, rest))
          else Some ([], cs))"

definition lex_exp :: "string \<Rightarrow> (string \<times> string) option" where
  "lex_exp cs =
     (case cs of
        [] \<Rightarrow> Some ([], cs)
      | c # r \<Rightarrow>
          if c = CHR ''e'' \<or> c = CHR ''E'' then
            (case r of
               [] \<Rightarrow> None
             | s # r' \<Rightarrow>
                 if s = CHR ''+'' \<or> s = CHR ''-'' then
                   (case lex_digits r' of
                      None \<Rightarrow> None
                    | Some (ds, rest) \<Rightarrow> Some (c # s # ds, rest))
                 else
                   (case lex_digits r of
                      None \<Rightarrow> None
                    | Some (ds, rest) \<Rightarrow> Some (c # ds, rest)))
          else Some ([], cs))"

definition lex_unsigned :: "string \<Rightarrow> (string \<times> string) option" where
  "lex_unsigned cs =
     (case lex_int cs of
        None \<Rightarrow> None
      | Some (i, r1) \<Rightarrow>
          (case lex_frac r1 of
             None \<Rightarrow> None
           | Some (f, r2) \<Rightarrow>
               (case lex_exp r2 of
                  None \<Rightarrow> None
                | Some (e, r3) \<Rightarrow> Some (i @ f @ e, r3))))"

definition lex_number :: "string \<Rightarrow> (string \<times> string) option" where
  "lex_number cs =
     (case cs of
        [] \<Rightarrow> None
      | c # r \<Rightarrow>
          if c = CHR ''-'' then
            (case lex_unsigned r of None \<Rightarrow> None | Some (n, rest) \<Rightarrow> Some (c # n, rest))
          else lex_unsigned cs)"

definition cons_token :: "token \<Rightarrow> exception + token list \<Rightarrow> exception + token list" where
  "cons_token t r = (case r of Inl e \<Rightarrow> Inl e | Inr ts \<Rightarrow> Inr (t # ts))"

text \<open>
  Every token consumes input, which is what the termination of the lexer rests on.
\<close>

lemma cons_unit_rest:
  "cons_unit u r = Inr (us, rest) \<Longrightarrow> \<exists>us'. r = Inr (us', rest)"
  by (auto simp: cons_unit_def split: sum.splits prod.splits)

lemma lex_string_rest: "lex_string cs = Inr (us, rest) \<Longrightarrow> length rest < length cs"
proof (induction cs arbitrary: us rule: measure_induct_rule [where f = length])
  case (less cs)
  note IH = less.IH and prem = less.prems
  have sub: "length rest < length cs"
    if "cons_unit u (lex_string ys) = Inr (us, rest)" and "length ys < length cs" for u ys
  proof -
    from cons_unit_rest [OF that(1)] obtain us' where "lex_string ys = Inr (us', rest)" ..
    from IH [OF that(2) this] that(2) show ?thesis by simp
  qed
  show ?case
  proof (cases cs)
    case Nil
    with prem show ?thesis by simp
  next
    case (Cons c cs')
    show ?thesis
    proof (cases "c = CHR 0x22")
      case True
      with prem Cons show ?thesis by simp
    next
      case nq: False
      show ?thesis
      proof (cases "c = CHR 0x5C")
        case nb: False
        from prem Cons nq nb have "cons_unit (code_unit c) (lex_string cs') = Inr (us, rest)"
          by (simp split: if_splits)
        then show ?thesis by (rule sub) (simp add: Cons)
      next
        case True
        show ?thesis
        proof (cases cs')
          case Nil
          with prem Cons nq True show ?thesis by simp
        next
          case e: (Cons e r)
          show ?thesis
          proof (cases "e = CHR ''u''")
            case False
            from prem Cons nq True e False
            obtain u where "cons_unit u (lex_string r) = Inr (us, rest)"
              by (simp split: option.splits)
            then show ?thesis by (rule sub) (simp add: Cons e)
          next
            case u: True
            from prem Cons nq True e u
            obtain h1 h2 h3 h4 r' where r: "r = h1 # h2 # h3 # h4 # r'"
              by (simp split: list.splits)
            from prem Cons nq True e u r
            obtain v where "cons_unit v (lex_string r') = Inr (us, rest)"
              by (simp split: option.splits)
            then show ?thesis by (rule sub) (simp add: Cons e r)
          qed
        qed
      qed
    qed
  qed
qed

lemma lex_digits_rest: "lex_digits cs = Some (ds, rest) \<Longrightarrow> length rest < length cs"
proof -
  assume a: "lex_digits cs = Some (ds, rest)"
  then have "takeWhile is_digit cs \<noteq> []" and r: "rest = dropWhile is_digit cs"
    by (auto simp: lex_digits_def Let_def split: if_splits)
  then have "length (takeWhile is_digit cs) > 0" by simp
  moreover have "length (takeWhile is_digit cs) + length (dropWhile is_digit cs) = length cs"
    by (metis length_append takeWhile_dropWhile_id)
  ultimately show ?thesis using r by arith
qed

lemma lex_int_rest: "lex_int cs = Some (ds, rest) \<Longrightarrow> length rest < length cs"
  by (auto simp: lex_int_def split: list.splits if_splits dest: lex_digits_rest)

lemma lex_frac_rest: "lex_frac cs = Some (ds, rest) \<Longrightarrow> length rest \<le> length cs"
  by (auto simp: lex_frac_def split: list.splits if_splits option.splits dest!: lex_digits_rest)

lemma lex_exp_rest: "lex_exp cs = Some (ds, rest) \<Longrightarrow> length rest \<le> length cs"
  by (auto simp: lex_exp_def split: list.splits if_splits option.splits dest!: lex_digits_rest)

lemma lex_unsigned_rest: "lex_unsigned cs = Some (n, rest) \<Longrightarrow> length rest < length cs"
  by (fastforce simp: lex_unsigned_def split: option.splits
      dest!: lex_int_rest lex_frac_rest lex_exp_rest)

lemma lex_number_rest: "lex_number cs = Some (n, rest) \<Longrightarrow> length rest < length cs"
  by (auto simp: lex_number_def split: list.splits if_splits option.splits dest!: lex_unsigned_rest)

function lex :: "string \<Rightarrow> exception + token list" where
  "lex [] = Inr []"
| "lex (c # cs) =
     (if is_json_space c then lex cs
      else if c = CHR ''{'' then cons_token LBrace (lex cs)
      else if c = CHR ''}'' then cons_token RBrace (lex cs)
      else if c = CHR ''['' then cons_token LBracket (lex cs)
      else if c = CHR '']'' then cons_token RBracket (lex cs)
      else if c = CHR '':'' then cons_token Colon (lex cs)
      else if c = CHR '','' then cons_token Comma (lex cs)
      else if c = CHR 0x22 then
        (case lex_string cs of
           Inl e \<Rightarrow> Inl e
         | Inr (us, rest) \<Rightarrow> cons_token (TString us) (lex rest))
      else if c = CHR ''-'' \<or> is_digit c then
        (case lex_number (c # cs) of
           None \<Rightarrow> Inl SyntaxError
         | Some (n, rest) \<Rightarrow> cons_token (TNumber n) (lex rest))
      else if startsWith (c # cs) ''true'' then cons_token TTrue (lex (drop 3 cs))
      else if startsWith (c # cs) ''false'' then cons_token TFalse (lex (drop 4 cs))
      else if startsWith (c # cs) ''null'' then cons_token TNull (lex (drop 3 cs))
      else Inl SyntaxError)"
  by pat_completeness auto
termination
proof (relation "measure length", goal_cases)
  case 1
  then show ?case by simp
next
  case (9 c cs x us rest)
  then show ?case using lex_string_rest [of cs us rest] by simp
next
  case (10 c cs x n rest)
  then show ?case using lex_number_rest [of "c # cs" n rest] by simp
qed simp_all

text \<open>
  The parser is a stack machine over the tokens. A frame is an array or an object under
  construction (an object frame also holds the key that waits for its value);
  \<open>expect\<close> says which tokens may come next. A text is accepted when the tokens end
  with one finished value and an empty stack.
\<close>

datatype frame =
    ArrayFrame "json list"
  | ObjectFrame "(nat list \<times> json) list" "nat list option"

datatype expect =
    Value | ValueOrClose | KeyOrClose | Key | ColonNext | CommaOrClose | Finished json

fun complete :: "json \<Rightarrow> frame list \<Rightarrow> (expect \<times> frame list) option" where
  "complete v [] = Some (Finished v, [])"
| "complete v (ArrayFrame xs # st) = Some (CommaOrClose, ArrayFrame (xs @ [v]) # st)"
| "complete v (ObjectFrame ms (Some k) # st) =
     Some (CommaOrClose, ObjectFrame (ms @ [(k, v)]) None # st)"
| "complete v (ObjectFrame ms None # st) = None"

fun scalar :: "token \<Rightarrow> json option" where
  "scalar (TString us) = Some (JString us)"
| "scalar (TNumber n) = Some (JNumber n)"
| "scalar TTrue = Some (JBool True)"
| "scalar TFalse = Some (JBool False)"
| "scalar TNull = Some JNull"
| "scalar _ = None"

fun value_start :: "token \<Rightarrow> frame list \<Rightarrow> (expect \<times> frame list) option" where
  "value_start LBracket st = Some (ValueOrClose, ArrayFrame [] # st)"
| "value_start LBrace st = Some (KeyOrClose, ObjectFrame [] None # st)"
| "value_start t st = (case scalar t of None \<Rightarrow> None | Some v \<Rightarrow> complete v st)"

fun close_array :: "frame list \<Rightarrow> (expect \<times> frame list) option" where
  "close_array (ArrayFrame xs # st) = complete (JArray xs) st"
| "close_array _ = None"

fun close_object :: "frame list \<Rightarrow> (expect \<times> frame list) option" where
  "close_object (ObjectFrame ms None # st) = complete (JObject ms) st"
| "close_object _ = None"

fun member_key :: "token \<Rightarrow> frame list \<Rightarrow> (expect \<times> frame list) option" where
  "member_key (TString k) (ObjectFrame ms None # st) =
     Some (ColonNext, ObjectFrame ms (Some k) # st)"
| "member_key _ _ = None"

fun after_value :: "token \<Rightarrow> frame list \<Rightarrow> (expect \<times> frame list) option" where
  "after_value Comma (ArrayFrame xs # st) = Some (Value, ArrayFrame xs # st)"
| "after_value Comma (ObjectFrame ms None # st) = Some (Key, ObjectFrame ms None # st)"
| "after_value RBracket st = close_array st"
| "after_value RBrace st = close_object st"
| "after_value _ _ = None"

fun step :: "expect \<Rightarrow> frame list \<Rightarrow> token \<Rightarrow> (expect \<times> frame list) option" where
  "step Value st t = value_start t st"
| "step ValueOrClose st t = (if t = RBracket then close_array st else value_start t st)"
| "step KeyOrClose st t = (if t = RBrace then close_object st else member_key t st)"
| "step Key st t = member_key t st"
| "step ColonNext st t = (if t = Colon then Some (Value, st) else None)"
| "step CommaOrClose st t = after_value t st"
| "step (Finished v) st t = None"

fun run :: "expect \<Rightarrow> frame list \<Rightarrow> token list \<Rightarrow> (expect \<times> frame list) option" where
  "run e st [] = Some (e, st)"
| "run e st (t # ts) = (case step e st t of None \<Rightarrow> None | Some (e', st') \<Rightarrow> run e' st' ts)"

definition parse_tokens :: "token list \<Rightarrow> exception + json" where
  "parse_tokens ts =
     (case run Value [] ts of
        Some (Finished v, []) \<Rightarrow> Inr v
      | _ \<Rightarrow> Inl SyntaxError)"

definition JSON_parse :: "string \<Rightarrow> exception + json" where
  "JSON_parse text = (case lex text of Inl e \<Rightarrow> Inl e | Inr ts \<Rightarrow> parse_tokens ts)"

text \<open>
  A message of the conversation, and \<^verbatim>\<open>JSON.stringify\<close> on an array of messages:
  no white space, the keys \<^verbatim>\<open>role\<close> and \<^verbatim>\<open>content\<close> in that order, and in a
  string the quote, the backslash and the control characters below 32 escaped (the short
  escapes where they exist, \<^verbatim>\<open>\u00XX\<close> in lower-case hexadecimal otherwise).
\<close>

datatype role = User | Assistant

record message =
  role :: role
  content :: string

definition role_name :: "role \<Rightarrow> string" where
  "role_name r = (case r of User \<Rightarrow> ''user'' | Assistant \<Rightarrow> ''assistant'')"

definition hex_digit :: "nat \<Rightarrow> char" where
  "hex_digit n = ''0123456789abcdef'' ! n"

definition escape_char :: "char \<Rightarrow> string" where
  "escape_char c =
     (let n = code_unit c
      in if n = 34 then [CHR 0x5C, CHR 0x22]
         else if n = 92 then [CHR 0x5C, CHR 0x5C]
         else if n = 8 then [CHR 0x5C, CHR ''b'']
         else if n = 12 then [CHR 0x5C, CHR ''f'']
         else if n = 10 then [CHR 0x5C, CHR ''n'']
         else if n = 13 then [CHR 0x5C, CHR ''r'']
         else if n = 9 then [CHR 0x5C, CHR ''t'']
         else if n < 32 then
           [CHR 0x5C, CHR ''u'', CHR ''0'', CHR ''0'', hex_digit (n div 16), hex_digit (n mod 16)]
         else [c])"

definition quote :: "string \<Rightarrow> string" where
  "quote s = CHR 0x22 # concat (map escape_char s) @ [CHR 0x22]"

fun join :: "'a list \<Rightarrow> 'a list list \<Rightarrow> 'a list" where
  "join sep [] = []"
| "join sep [x] = x"
| "join sep (x # y # ys) = x @ sep @ join sep (y # ys)"

definition stringify_message :: "message \<Rightarrow> string" where
  "stringify_message m =
     ''{'' @ quote ''role'' @ '':'' @ quote (role_name (role m)) @ '','' @
     quote ''content'' @ '':'' @ quote (content m) @ ''}''"

definition JSON_stringify :: "message list \<Rightarrow> string" where
  "JSON_stringify msgs = ''['' @ join '','' (map stringify_message msgs) @ '']''"

text \<open>
  The parsed value that stands for a message log.
\<close>

definition units :: "string \<Rightarrow> nat list" where
  "units s = map code_unit s"

definition message_json :: "message \<Rightarrow> json" where
  "message_json m =
     JObject [(units ''role'', JString (units (role_name (role m)))),
              (units ''content'', JString (units (content m)))]"

definition messages_json :: "message list \<Rightarrow> json" where
  "messages_json msgs = JArray (map message_json msgs)"


text \<open>
  The tokens of a serialized message, for the proof that a serialized log parses back.
\<close>

definition prepend :: "token list \<Rightarrow> exception + token list \<Rightarrow> exception + token list" where
  "prepend ts r = (case r of Inl e \<Rightarrow> Inl e | Inr ts' \<Rightarrow> Inr (ts @ ts'))"

definition message_tokens :: "message \<Rightarrow> token list" where
  "message_tokens m =
     [LBrace, TString (units ''role''), Colon, TString (units (role_name (role m))), Comma,
      TString (units ''content''), Colon, TString (units (content m)), RBrace]"

section \<open>The durable local store\<close>

text \<open>
  \<^verbatim>\<open>localStorage\<close>: a map from keys to texts. \<^verbatim>\<open>getItem\<close> answers \<^verbatim>\<open>null\<close>
  (\<open>None\<close>) for a key that was never written.
\<close>

type_synonym storage = "string \<rightharpoonup> string"

definition getItem :: "storage \<Rightarrow> string \<Rightarrow> string option" where
  "getItem store key = store key"

definition setItem :: "storage \<Rightarrow> string \<Rightarrow> string \<Rightarrow> storage" where
  "setItem store key text = store(key \<mapsto> text)"

section \<open>utils/api.js\<close>

text \<open>
  Each function of \<^verbatim>\<open>utils/api.js\<close> awaits one HTTP call, returns \<^verbatim>\<open>response.data\<close>
  and, in its \<^verbatim>\<open>catch\<close>, logs and throws the error again. The outcome of the HTTP
  call is an argument of the model: \<open>Inl\<close> a rejection, \<open>Inr\<close> the data of the
  response. For \<^verbatim>\<open>sendMessage\<close> the data is the \<^verbatim>\<open>content\<close> of the reply.
\<close>

record document =
  document_id :: string
  filename :: string

definition fetchDocuments :: "exception + document list \<Rightarrow> exception + document list" where
  "fetchDocuments outcome = (case outcome of Inl error \<Rightarrow> Inl error | Inr data \<Rightarrow> Inr data)"

definition sendMessage :: "exception + string \<Rightarrow> exception + string" where
  "sendMessage outcome = (case outcome of Inl error \<Rightarrow> Inl error | Inr data \<Rightarrow> Inr data)"

definition deleteDocument :: "exception + json \<Rightarrow> exception + json" where
  "deleteDocument outcome = (case outcome of Inl error \<Rightarrow> Inl error | Inr data \<Rightarrow> Inr data)"

text \<open>
  \<^verbatim>\<open>uploadDocument\<close> also reports progress: for every progress event of the transport
  it calls \<^verbatim>\<open>onProgressUpdate\<close> with
  \<^verbatim>\<open>Math.round((progressEvent.loaded * 100) / progressEvent.total)\<close>.

  The numbers of the host are IEEE 754 doubles, and the product and the quotient are
  rounded to the nearest double. Only numbers that are not negative occur here. A finite
  one is the rational it stands for. \<open>binade x\<close> is the exponent \<open>e\<close> with
  \<open>2\<^sup>e \<le> x < 2\<^sup>e\<^sup>+\<^sup>1\<close>; \<open>nearest_double\<close> rounds to 53 significant bits, a tie
  to the even significand; a result from \<open>2\<^sup>1\<^sup>0\<^sup>2\<^sup>4\<close> on is \<^verbatim>\<open>Infinity\<close>. No result
  is small enough to be subnormal: the byte counts are natural numbers, so a product is
  0 or at least 100, and a finite divisor is below \<open>2\<^sup>1\<^sup>0\<^sup>2\<^sup>4\<close>.
\<close>

datatype js_number = Finite rat | Infinity | NaN

definition binade :: "rat \<Rightarrow> int" where
  "binade x =
     (let (a, b) = quotient_of x; e = bitlen a - bitlen b
      in if 2 powi e \<le> x then e else e - 1)"

definition round_even :: "rat \<Rightarrow> int" where
  "round_even m =
     (let f = \<lfloor>m\<rfloor>; r = m - of_int f
      in if r < 1 / 2 then f
         else if 1 / 2 < r then f + 1
         else if even f then f else f + 1)"

definition nearest_double :: "rat \<Rightarrow> rat" where
  "nearest_double x =
     (if x \<le> 0 then 0
      else let ulp = 2 powi (binade x - 52) in of_int (round_even (x / ulp)) * ulp)"

definition to_number :: "rat \<Rightarrow> js_number" where
  "to_number x =
     (let d = nearest_double x in if 0 < d \<and> 1024 \<le> binade d then Infinity else Finite d)"

text \<open>A byte count as a number, and the operators \<^verbatim>\<open>*\<close> and \<^verbatim>\<open>/\<close>.\<close>

definition number_of_nat :: "nat \<Rightarrow> js_number" where
  "number_of_nat n = to_number (of_nat n)"

definition js_times :: "js_number \<Rightarrow> js_number \<Rightarrow> js_number" where
  "js_times a b =
     (case (a, b) of
        (Finite x, Finite y) \<Rightarrow> to_number (x * y)
      | (Finite x, Infinity) \<Rightarrow> (if x = 0 then NaN else Infinity)
      | (Infinity, Finite y) \<Rightarrow> (if y = 0 then NaN else Infinity)
      | (Infinity, Infinity) \<Rightarrow> Infinity
      | _ \<Rightarrow> NaN)"

definition js_divide :: "js_number \<Rightarrow> js_number \<Rightarrow> js_number" where
  "js_divide a b =
     (case (a, b) of
        (Finite x, Finite y) \<Rightarrow>
          (if y = 0 then (if x = 0 then NaN else Infinity) else to_number (x / y))
      | (Finite x, Infinity) \<Rightarrow> Finite 0
      | (Infinity, Finite y) \<Rightarrow> Infinity
      | _ \<Rightarrow> NaN)"

text \<open>
  \<^verbatim>\<open>Math.round\<close> gives the nearest integer, a tie going up: on a finite number it is
  \<open>\<lfloor>x + 1/2\<rfloor>\<close>, which is \<^const>\<open>round\<close>, and it is exact.
\<close>

definition Math_round :: "js_number \<Rightarrow> js_number" where
  "Math_round a =
     (case a of Finite x \<Rightarrow> Finite (of_int (round x)) | Infinity \<Rightarrow> Infinity | NaN \<Rightarrow> NaN)"

record progress_event =
  loaded :: nat
  total :: nat

definition percent :: "nat \<Rightarrow> nat \<Rightarrow> js_number" where
  "percent l t =
     Math_round (js_divide (js_times (number_of_nat l) (Finite 100)) (number_of_nat t))"

definition percentCompleted :: "progress_event \<Rightarrow> js_number" where
  "percentCompleted progressEvent = percent (loaded progressEvent) (total progressEvent)"

text \<open>
  The quotient as a double, for byte counts small enough that nothing overflows.
\<close>

definition quotient_double :: "nat \<Rightarrow> nat \<Rightarrow> rat" where
  "quotient_double l t =
     nearest_double (nearest_double (nearest_double (of_nat l) * 100) /
                     nearest_double (of_nat t))"

definition uploadDocument ::
  "progress_event list \<Rightarrow> exception + json \<Rightarrow> js_number list \<times> (exception + json)" where
  "uploadDocument events outcome =
     (map percentCompleted events,
      (case outcome of Inl error \<Rightarrow> Inl error | Inr data \<Rightarrow> Inr data))"

section \<open>App.js\<close>

record app_state =
  messages :: "message list"
  inputMessage :: string
  isLoading :: bool
  documents :: "document list"

text \<open>The requests a handler sends to the remote services, in the order it sends them.\<close>

datatype request =
    ChatRequest "message list" bool
  | DeleteRequest string
  | ListRequest

text \<open>
  The mount effect reads the key \<^verbatim>\<open>chatMessages\<close>; when the value is truthy (neither
  \<^verbatim>\<open>null\<close> nor the empty text) it calls \<^verbatim>\<open>setMessages(JSON.parse(savedMessages))\<close>,
  with no handler around the call. \<open>restore\<close> is the value of the \<^verbatim>\<open>messages\<close> state
  after the effect (the initial state is the empty array), or the exception that left it.
\<close>

definition restore :: "storage \<Rightarrow> exception + json" where
  "restore store =
     (case getItem store ''chatMessages'' of
        None \<Rightarrow> Inr (messages_json [])
      | Some savedMessages \<Rightarrow>
          if savedMessages = [] then Inr (messages_json [])
          else JSON_parse savedMessages)"

text \<open>The second effect runs whenever \<^verbatim>\<open>messages\<close> has changed.\<close>

definition persist :: "app_state \<Rightarrow> storage \<Rightarrow> storage" where
  "persist s store = setItem store ''chatMessages'' (JSON_stringify (messages s))"

text \<open>
  Every handler changes the log through \<^verbatim>\<open>setMessages(prev => [...prev, m])\<close>.
  \<open>append\<close> is that update followed by the persist effect.
\<close>

definition appendMessage :: "message \<Rightarrow> app_state \<Rightarrow> app_state" where
  "appendMessage m s = s\<lparr>messages := messages s @ [m]\<rparr>"

definition append :: "message \<Rightarrow> app_state \<times> storage \<Rightarrow> app_state \<times> storage" where
  "append m session =
     (let s' = appendMessage m (fst session) in (s', persist s' (snd session)))"

definition loadDocuments :: "exception + document list \<Rightarrow> app_state \<Rightarrow> app_state" where
  "loadDocuments outcome s =
     (case fetchDocuments outcome of
        Inr docs \<Rightarrow> s\<lparr>documents := docs\<rparr>
      | Inl error \<Rightarrow> s)"

definition fallbackMessage :: message where
  "fallbackMessage =
     \<lparr>role = Assistant, content = ''Sorry, I encountered an error. Please try again.''\<rparr>"

text \<open>
  A handler returns the state it leaves and the requests it has sent, or the exception
  that escapes it. \<open>outcome\<close> is the outcome of the awaited call.
\<close>

definition handleSendMessage ::
  "exception + string \<Rightarrow> app_state \<Rightarrow> exception + (app_state \<times> request list)" where
  "handleSendMessage outcome s =
     (if trim (inputMessage s) = [] then Inr (s, [])
      else
        let userMessage = \<lparr>role = User, content = inputMessage s\<rparr>;
            s1 = (appendMessage userMessage s)\<lparr>inputMessage := [], isLoading := True\<rparr>;
            searchWeb = needsWebSearch (inputMessage s);
            sent = [ChatRequest (messages s @ [userMessage]) searchWeb]
        in case sendMessage outcome of
             Inr response \<Rightarrow>
               Inr ((appendMessage \<lparr>role = Assistant, content = response\<rparr> s1)
                      \<lparr>isLoading := False\<rparr>, sent)
           | Inl error \<Rightarrow>
               Inr ((appendMessage fallbackMessage s1)\<lparr>isLoading := False\<rparr>, sent))"

definition uploadedMessage :: "string \<Rightarrow> message" where
  "uploadedMessage fileName =
     \<lparr>role = Assistant,
      content = ''File '' @ [CHR 0x22] @ fileName @ [CHR 0x22] @
        '' has been uploaded successfully. You can now ask questions about its content.''\<rparr>"

text \<open>\<open>outcome\<close> is the outcome of the list request that \<^verbatim>\<open>loadDocuments\<close> sends.\<close>

definition handleFileUpload ::
  "exception + document list \<Rightarrow> string \<Rightarrow> app_state \<Rightarrow> exception + (app_state \<times> request list)" where
  "handleFileUpload outcome fileName s =
     Inr (appendMessage (uploadedMessage fileName) (loadDocuments outcome s), [ListRequest])"

definition deletedMessage :: message where
  "deletedMessage = \<lparr>role = Assistant, content = ''Document has been deleted successfully.''\<rparr>"

definition deleteErrorMessage :: message where
  "deleteErrorMessage =
     \<lparr>role = Assistant, content = ''Error deleting document. Please try again.''\<rparr>"

definition handleDocumentDelete ::
  "exception + json \<Rightarrow> string \<Rightarrow> app_state \<Rightarrow> exception + (app_state \<times> request list)" where
  "handleDocumentDelete outcome documentId s =
     (case deleteDocument outcome of
        Inr data \<Rightarrow>
          Inr (appendMessage deletedMessage
                 (s\<lparr>documents := filter (\<lambda>doc. document_id doc \<noteq> documentId) (documents s)\<rparr>),
               [DeleteRequest documentId])
      | Inl error \<Rightarrow>
          Inr (appendMessage deleteErrorMessage s, [DeleteRequest documentId]))"

text \<open>The operations of the coordinator, each with the outcome of its remote call.\<close>

datatype operation =
    SendMessage "exception + string"
  | FileUploaded "exception + document list" string
  | DeleteDocument "exception + json" string

definition perform :: "operation \<Rightarrow> app_state \<Rightarrow> exception + (app_state \<times> request list)" where
  "perform op s =
     (case op of
        SendMessage outcome \<Rightarrow> handleSendMessage outcome s
      | FileUploaded outcome fileName \<Rightarrow> handleFileUpload outcome fileName s
      | DeleteDocument outcome documentId \<Rightarrow> handleDocumentDelete outcome documentId s)"

section \<open>components/FileUpload/index.js\<close>

record file_handle =
  name :: string

record upload_state =
  selectedFile :: "file_handle option"
  isUploading :: bool
  uploadProgress :: js_number

text \<open>
  One run of \<^verbatim>\<open>handleUpload\<close>: the values \<^verbatim>\<open>uploadProgress\<close> takes while
  \<^verbatim>\<open>isUploading\<close> is true, in order, the state the handler leaves, and the
  arguments of the call of \<^verbatim>\<open>onFileUpload\<close> if there was one.
\<close>

record upload_run =
  observed :: "js_number list"
  final :: upload_state
  notified :: "(json \<times> string) option"

definition handleUpload ::
  "progress_event list \<Rightarrow> exception + json \<Rightarrow> upload_state \<Rightarrow> upload_run" where
  "handleUpload events outcome u =
     (case selectedFile u of
        None \<Rightarrow> \<lparr>observed = [], final = u, notified = None\<rparr>
      | Some f \<Rightarrow>
          let u1 = u\<lparr>isUploading := True, uploadProgress := Finite 0\<rparr>;
              (reported, result) = uploadDocument events outcome;
              u2 = u1\<lparr>uploadProgress := last (Finite 0 # reported)\<rparr>
          in case result of
               Inr response \<Rightarrow>
                 \<lparr>observed = Finite 0 # reported,
                  final = u2\<lparr>selectedFile := None, isUploading := False,
                              uploadProgress := Finite 0\<rparr>,
                  notified = Some (response, name f)\<rparr>
             | Inl error \<Rightarrow>
                 \<lparr>observed = Finite 0 # reported,
                  final = u2\<lparr>isUploading := False, uploadProgress := Finite 0\<rparr>,
                  notified = None\<rparr>)"

text \<open>Comparison and range of progress values; \<^verbatim>\<open>NaN\<close> compares with nothing.\<close>

fun js_le :: "js_number \<Rightarrow> js_number \<Rightarrow> bool" where
  "js_le (Finite a) (Finite b) = (a \<le> b)"
| "js_le (Finite a) Infinity = True"
| "js_le Infinity Infinity = True"
| "js_le _ _ = False"

fun within_0_100 :: "js_number \<Rightarrow> bool" where
  "within_0_100 (Finite a) = (0 \<le> a \<and> a \<le> 100)"
| "within_0_100 _ = False"

text \<open>
  The progress events of one transfer as the transport documents them: the total is
  known, positive, below \<open>2\<^sup>6\<^sup>4\<close> and the same in every event, and the bytes sent
  never decrease nor exceed the total.
\<close>

fun transfer_events :: "progress_event list \<Rightarrow> bool" where
  "transfer_events [] = True"
| "transfer_events [e] = (0 < total e \<and> total e < 2 ^ 64 \<and> loaded e \<le> total e)"
| "transfer_events (e # e' # es) =
     (loaded e \<le> loaded e' \<and> total e = total e' \<and> transfer_events (e' # es))"

section \<open>The JSON text of a message log parses back to the log\<close>

lemma hex_digits_table: "list_all (\<lambda>k. hex_value (hex_digit k) = Some k) [0..<16]"
  by code_simp

lemma hex_value_hex_digit: "k < 16 \<Longrightarrow> hex_value (hex_digit k) = Some k"
  using hex_digits_table by (simp add: list_all_iff)

lemma hex4_byte:
  assumes "n < 256"
  shows "hex4 (CHR ''0'') (CHR ''0'') (hex_digit (n div 16)) (hex_digit (n mod 16)) = Some n"
proof -
  have a: "hex_value (hex_digit (n div 16)) = Some (n div 16)"
    using assms by (intro hex_value_hex_digit) simp
  have b: "hex_value (hex_digit (n mod 16)) = Some (n mod 16)"
    by (intro hex_value_hex_digit) simp
  have z: "hex_value (CHR ''0'') = Some 0"
    by (simp add: hex_value_def code_unit_def)
  show ?thesis by (simp add: hex4_def a b z)
qed

lemma code_unit_eq_iff: "code_unit c = code_unit d \<longleftrightarrow> c = d"
  by (simp add: code_unit_def)

lemma lex_string_escape_char:
  "lex_string (escape_char c @ rest) = cons_unit (code_unit c) (lex_string rest)"
proof -
  have q: "code_unit (CHR 0x22) = 34" and b: "code_unit (CHR 0x5C) = 92"
    by (simp_all add: code_unit_def)
  have cq: "c = CHR 0x22 \<longleftrightarrow> code_unit c = 34"
    using code_unit_eq_iff [of c "CHR 0x22"] q by simp
  have cb: "c = CHR 0x5C \<longleftrightarrow> code_unit c = 92"
    using code_unit_eq_iff [of c "CHR 0x5C"] b by simp
  consider "code_unit c \<in> {34, 92, 8, 12, 10, 13, 9}"
    | "code_unit c \<notin> {34, 92, 8, 12, 10, 13, 9}" "code_unit c < 32"
    | "code_unit c \<notin> {34, 92, 8, 12, 10, 13, 9}" "\<not> code_unit c < 32"
    by blast
  then show ?thesis
  proof cases
    case 1
    then show ?thesis
      by (auto simp: escape_char_def unescape_def)
  next
    case 2
    then have "code_unit c < 256" by simp
    from hex4_byte [OF this] 2 show ?thesis
      by (simp add: escape_char_def Let_def)
  next
    case 3
    then show ?thesis
      by (simp add: escape_char_def cq cb)
  qed
qed

lemma lex_string_escaped:
  "lex_string (concat (map escape_char s) @ CHR 0x22 # rest) = Inr (units s, rest)"
  by (induction s) (simp_all add: lex_string_escape_char cons_unit_def units_def)


lemma cons_token_prepend: "cons_token t r = prepend [t] r"
  by (simp add: cons_token_def prepend_def split: sum.splits)

lemma prepend_prepend: "prepend ts (prepend us r) = prepend (ts @ us) r"
  by (simp add: prepend_def split: sum.splits)

lemma lex_quote: "lex (quote s @ rest) = prepend [TString (units s)] (lex rest)"
  by (simp add: quote_def lex_string_escaped is_json_space_def code_unit_def cons_token_prepend)

lemma lex_punct:
  "lex (CHR ''{'' # rest) = prepend [LBrace] (lex rest)"
  "lex (CHR ''}'' # rest) = prepend [RBrace] (lex rest)"
  "lex (CHR ''['' # rest) = prepend [LBracket] (lex rest)"
  "lex (CHR '']'' # rest) = prepend [RBracket] (lex rest)"
  "lex (CHR '':'' # rest) = prepend [Colon] (lex rest)"
  "lex (CHR '','' # rest) = prepend [Comma] (lex rest)"
  by (simp_all add: is_json_space_def code_unit_def cons_token_prepend)

lemma lex_message:
  "lex (stringify_message m @ rest) = prepend (message_tokens m) (lex rest)"
  by (simp add: stringify_message_def message_tokens_def lex_punct lex_quote prepend_prepend
      del: lex.simps)

lemma lex_messages:
  "lex (join '','' (map stringify_message msgs) @ rest) =
   prepend (join [Comma] (map message_tokens msgs)) (lex rest)"
proof (induction msgs rule: induct_list012)
  case 1
  show ?case by (simp add: prepend_def split: sum.splits)
next
  case (2 m)
  show ?case by (simp add: lex_message)
next
  case (3 m m' ms)
  then show ?case
    by (simp add: lex_message lex_punct prepend_prepend del: lex.simps)
qed

lemma lex_JSON_stringify:
  "lex (JSON_stringify msgs) =
   Inr (LBracket # join [Comma] (map message_tokens msgs) @ [RBracket])"
proof -
  have "lex (JSON_stringify msgs) =
        prepend [LBracket] (lex (join '','' (map stringify_message msgs) @ '']''))"
    by (simp add: JSON_stringify_def lex_punct del: lex.simps)
  also have "\<dots> = prepend [LBracket]
      (prepend (join [Comma] (map message_tokens msgs)) (lex '']''))"
    by (simp only: lex_messages)
  also have "lex '']'' = Inr [RBracket]"
    by (simp add: lex_punct prepend_def del: lex.simps(2))
  finally show ?thesis by (simp add: prepend_def)
qed

lemma run_append: "run e st (ts @ us) =
  (case run e st ts of None \<Rightarrow> None | Some (e', st') \<Rightarrow> run e' st' us)"
  by (induction ts arbitrary: e st) (auto split: option.splits)

lemma run_message:
  assumes "e = Value \<or> e = ValueOrClose"
  shows "run e (ArrayFrame xs # st) (message_tokens m) =
         Some (CommaOrClose, ArrayFrame (xs @ [message_json m]) # st)"
  using assms by (auto simp: message_tokens_def message_json_def)

lemma run_messages:
  assumes "e = Value \<or> e = ValueOrClose" and "msgs \<noteq> []"
  shows "run e (ArrayFrame xs # st) (join [Comma] (map message_tokens msgs)) =
         Some (CommaOrClose, ArrayFrame (xs @ map message_json msgs) # st)"
  using assms
proof (induction msgs arbitrary: e xs rule: induct_list012)
  case 1
  then show ?case by simp
next
  case (2 m)
  then show ?case by (simp add: run_message)
next
  case (3 m m' ms)
  have "run Value (ArrayFrame (xs @ [message_json m]) # st)
          (join [Comma] (map message_tokens (m' # ms))) =
        Some (CommaOrClose, ArrayFrame ((xs @ [message_json m]) @ map message_json (m' # ms)) # st)"
    by (rule "3.IH"(2)) simp_all
  with "3.prems" show ?case
    by (auto simp: run_append run_message)
qed

lemma parse_tokens_messages:
  "parse_tokens (LBracket # join [Comma] (map message_tokens msgs) @ [RBracket]) =
   Inr (messages_json msgs)"
proof (cases "msgs = []")
  case True
  then show ?thesis by (simp add: parse_tokens_def messages_json_def)
next
  case False
  have "run ValueOrClose [ArrayFrame []] (join [Comma] (map message_tokens msgs)) =
        Some (CommaOrClose, [ArrayFrame ([] @ map message_json msgs)])"
    using False by (intro run_messages) simp_all
  then show ?thesis
    by (simp add: parse_tokens_def messages_json_def run_append)
qed

lemma JSON_parse_stringify: "JSON_parse (JSON_stringify msgs) = Inr (messages_json msgs)"
  by (simp add: JSON_parse_def lex_JSON_stringify parse_tokens_messages)

section \<open>Auxiliary facts\<close>

lemma JSON_stringify_nonempty: "JSON_stringify msgs \<noteq> []"
  by (simp add: JSON_stringify_def)

lemma units_inj: "units a = units b \<Longrightarrow> a = b"
proof (induction a arbitrary: b)
  case Nil
  then show ?case by (simp add: units_def)
next
  case (Cons x xs)
  then obtain y ys where b: "b = y # ys" by (cases b) (simp_all add: units_def)
  from Cons.prems b have "code_unit x = code_unit y" and "units xs = units ys"
    by (simp_all add: units_def)
  with Cons.IH b show ?case by (simp add: code_unit_def)
qed

lemma role_name_inj: "role_name a = role_name b \<Longrightarrow> a = b"
  by (cases a; cases b) (simp_all add: role_name_def)

lemma message_json_inj:
  assumes "message_json a = message_json b"
  shows "a = b"
proof -
  from assms have "units (role_name (role a)) = units (role_name (role b))"
    and "units (content a) = units (content b)"
    by (simp_all add: message_json_def)
  then have "role a = role b" and "content a = content b"
    by (auto dest: units_inj role_name_inj)
  then show ?thesis by simp
qed

lemma messages_json_eq_iff: "messages_json a = messages_json b \<longleftrightarrow> a = b"
proof
  assume "messages_json a = messages_json b"
  then have "map message_json a = map message_json b" by (simp add: messages_json_def)
  moreover have "inj message_json" by (rule injI) (rule message_json_inj)
  ultimately show "a = b" by (simp add: inj_map_eq_map)
qed simp

lemma restore_persist: "restore (persist s store) = Inr (messages_json (messages s))"
  by (simp add: restore_def persist_def getItem_def setItem_def JSON_stringify_nonempty
      JSON_parse_stringify)

subsection \<open>Rounding to the nearest double\<close>

lemma pw_pos: "0 < (2::rat) powi k"
  by simp

lemma pw_Suc: "(2::rat) powi (k + 1) = 2 * 2 powi k"
  by (simp add: power_int_add_1)

lemma pw_add: "(2::rat) powi (j + k) = 2 powi j * 2 powi k"
  by (rule power_int_add) simp

lemma pw_mono: "j \<le> k \<Longrightarrow> (2::rat) powi j \<le> 2 powi k"
  by (rule power_int_increasing) simp_all

lemma pw_less_cancel: "(2::rat) powi j < 2 powi k \<Longrightarrow> j < k"
proof (rule ccontr)
  assume a: "(2::rat) powi j < 2 powi k" and "\<not> j < k"
  then have "k \<le> j" by simp
  from pw_mono [OF this] a show False by simp
qed

lemma pw_nat: "0 \<le> k \<Longrightarrow> (2::rat) powi k = 2 ^ nat k"
  by (simp add: power_int_def)

lemma pw_shift:
  assumes "j + int n = k"
  shows "(2::rat) powi k = 2 ^ n * 2 powi j"
proof -
  from assms have "(2::rat) powi k = 2 powi (int n + j)" by (simp add: add.commute)
  also have "\<dots> = 2 powi int n * 2 powi j" by (rule pw_add)
  finally show ?thesis by simp
qed

lemma bitlen_rat_bounds:
  assumes "0 < a"
  shows "(2::rat) powi (bitlen a - 1) \<le> of_int a" and "of_int a < (2::rat) powi bitlen a"
proof -
  from assms have "bitlen a \<noteq> 0" by (simp add: bitlen_eq_zero_iff)
  with bitlen_nonneg [of a] have p: "0 \<le> bitlen a - 1" and q: "0 \<le> bitlen a" by simp_all
  from bitlen_bounds [OF assms]
  have l: "2 ^ nat (bitlen a - 1) \<le> a" and u: "a < 2 ^ nat (bitlen a)" by simp_all
  from l have "(of_int (2 ^ nat (bitlen a - 1)) :: rat) \<le> of_int a"
    by (simp only: of_int_le_iff)
  then show "(2::rat) powi (bitlen a - 1) \<le> of_int a"
    by (simp add: pw_nat [OF p])
  from u have "(of_int a :: rat) < of_int (2 ^ nat (bitlen a))"
    by (simp only: of_int_less_iff)
  then show "of_int a < (2::rat) powi bitlen a"
    by (simp add: pw_nat [OF q])
qed

lemma binade_bounds:
  assumes "0 < x"
  shows "2 powi binade x \<le> x" and "x < 2 powi (binade x + 1)"
proof -
  obtain a b where q: "quotient_of x = (a, b)" by (cases "quotient_of x")
  from quotient_of_denom_pos [OF q] have b: "0 < b" .
  from quotient_of_div [OF q] have x: "x = of_int a / of_int b" .
  from b have rb: "(0::rat) < of_int b" by simp
  from assms x rb have "(0::rat) < of_int a" by (simp add: zero_less_divide_iff)
  then have a: "0 < a" by simp
  from x rb have xb: "x * of_int b = of_int a" by simp
  define e where "e = bitlen a - bitlen b"
  have up: "x < 2 powi (e + 1)"
  proof -
    have "2 powi (e + 1) * 2 powi (bitlen b - 1) = (2::rat) powi bitlen a"
      by (simp add: e_def flip: pw_add)
    moreover from bitlen_rat_bounds(1) [OF b] pw_pos [of "e + 1"]
    have "2 powi (e + 1) * 2 powi (bitlen b - 1) \<le> 2 powi (e + 1) * (of_int b :: rat)"
      by (simp only: mult_le_cancel_left_pos)
    ultimately have "x * of_int b < 2 powi (e + 1) * of_int b"
      using bitlen_rat_bounds(2) [OF a] xb by simp
    with rb show ?thesis by (simp only: mult_less_cancel_right_pos)
  qed
  have low: "2 powi (e - 1) < x"
  proof -
    have "2 powi (e - 1) * 2 powi (bitlen b) = (2::rat) powi (bitlen a - 1)"
      by (simp add: e_def flip: pw_add)
    moreover from bitlen_rat_bounds(2) [OF b] pw_pos [of "e - 1"]
    have "2 powi (e - 1) * (of_int b :: rat) < 2 powi (e - 1) * 2 powi (bitlen b)"
      by (simp only: mult_less_cancel_left_pos)
    ultimately have "2 powi (e - 1) * of_int b < x * of_int b"
      using bitlen_rat_bounds(1) [OF a] xb by simp
    with rb show ?thesis by (simp only: mult_less_cancel_right_pos)
  qed
  have be: "binade x = (if 2 powi e \<le> x then e else e - 1)"
    by (simp add: binade_def q e_def Let_def)
  show "2 powi binade x \<le> x"
  proof (cases "2 powi e \<le> x")
    case True
    with be show ?thesis by simp
  next
    case False
    with be low show ?thesis by simp
  qed
  show "x < 2 powi (binade x + 1)"
  proof (cases "2 powi e \<le> x")
    case True
    with be up show ?thesis by simp
  next
    case False
    with be show ?thesis by simp
  qed
qed

lemma binade_le:
  assumes "0 < x" and "x \<le> y"
  shows "binade x \<le> binade y"
proof -
  from assms have y: "0 < y" by simp
  from binade_bounds(1) [OF assms(1)] assms(2) binade_bounds(2) [OF y]
  have "(2::rat) powi binade x < 2 powi (binade y + 1)" by simp
  from pw_less_cancel [OF this] show ?thesis by simp
qed

lemma round_even_cases:
  "round_even m = \<lfloor>m\<rfloor> \<and> m - of_int \<lfloor>m\<rfloor> \<le> 1 / 2 \<or>
   round_even m = \<lfloor>m\<rfloor> + 1 \<and> 1 / 2 \<le> m - of_int \<lfloor>m\<rfloor>"
  by (simp add: round_even_def Let_def)

lemma round_even_upper: "of_int (round_even m) \<le> m + 1 / 2"
proof -
  have f: "of_int \<lfloor>m\<rfloor> \<le> m" by (rule of_int_floor_le)
  from round_even_cases [of m] show ?thesis
  proof (elim disjE conjE)
    assume "round_even m = \<lfloor>m\<rfloor>"
    then have "(of_int (round_even m) :: rat) = of_int \<lfloor>m\<rfloor>" by simp
    with f show ?thesis by linarith
  next
    assume r: "round_even m = \<lfloor>m\<rfloor> + 1" and h: "1 / 2 \<le> m - of_int \<lfloor>m\<rfloor>"
    from r have "(of_int (round_even m) :: rat) = of_int \<lfloor>m\<rfloor> + 1" by simp
    with h show ?thesis by linarith
  qed
qed

lemma round_even_lower: "m - 1 / 2 \<le> of_int (round_even m)"
proof -
  have f: "m < of_int \<lfloor>m\<rfloor> + 1" by linarith
  from round_even_cases [of m] show ?thesis
  proof (elim disjE conjE)
    assume r: "round_even m = \<lfloor>m\<rfloor>" and h: "m - of_int \<lfloor>m\<rfloor> \<le> 1 / 2"
    from r have "(of_int (round_even m) :: rat) = of_int \<lfloor>m\<rfloor>" by simp
    with h show ?thesis by linarith
  next
    assume r: "round_even m = \<lfloor>m\<rfloor> + 1"
    from r have "(of_int (round_even m) :: rat) = of_int \<lfloor>m\<rfloor> + 1" by simp
    with f show ?thesis by linarith
  qed
qed

lemma round_even_of_int: "round_even (of_int n) = n"
  by (simp add: round_even_def)

lemma round_even_mono:
  assumes "m \<le> m'"
  shows "round_even m \<le> round_even m'"
proof -
  from assms have f: "\<lfloor>m\<rfloor> \<le> \<lfloor>m'\<rfloor>" by (rule floor_mono)
  show ?thesis
  proof (cases "\<lfloor>m\<rfloor> = \<lfloor>m'\<rfloor>")
    case False
    with f have "\<lfloor>m\<rfloor> + 1 \<le> \<lfloor>m'\<rfloor>" by simp
    moreover from round_even_cases [of m] have "round_even m \<le> \<lfloor>m\<rfloor> + 1" by auto
    moreover from round_even_cases [of m'] have "\<lfloor>m'\<rfloor> \<le> round_even m'" by auto
    ultimately show ?thesis by simp
  next
    case True
    show ?thesis
    proof (cases "m = m'")
      case True
      then show ?thesis by simp
    next
      case False
      with assms have "m < m'" by simp
      with True show ?thesis
        by (simp add: round_even_def Let_def)
    qed
  qed
qed


lemma round_even_ge:
  assumes "of_int n \<le> m"
  shows "n \<le> round_even m"
  using round_even_mono [OF assms] by (simp add: round_even_of_int)

lemma round_even_le:
  assumes "m \<le> of_int n"
  shows "round_even m \<le> n"
  using round_even_mono [OF assms] by (simp add: round_even_of_int)

lemma nearest_double_nonneg: "0 \<le> nearest_double x"
proof (cases "x \<le> 0")
  case True
  then show ?thesis by (simp add: nearest_double_def)
next
  case False
  then have x: "0 < x" by simp
  let ?u = "(2::rat) powi (binade x - 52)"
  have "0 \<le> x / ?u" using x by simp
  then have "(of_int 0 :: rat) \<le> x / ?u" by simp
  from round_even_ge [OF this] have "0 \<le> round_even (x / ?u)" .
  then have "(0::rat) \<le> of_int (round_even (x / ?u)) * ?u" by simp
  with False show ?thesis by (simp add: nearest_double_def Let_def)
qed

lemma nearest_double_pos:
  assumes "0 < x"
  shows "nearest_double x = of_int (round_even (x / 2 powi (binade x - 52))) * 2 powi (binade x - 52)"
  using assms by (simp add: nearest_double_def Let_def)

lemma mantissa_bounds:
  assumes "0 < x"
  shows "of_int (2 ^ 52) \<le> x / 2 powi (binade x - 52)"
    and "x / 2 powi (binade x - 52) \<le> of_int (2 ^ 53)"
proof -
  let ?u = "(2::rat) powi (binade x - 52)"
  have u: "0 < ?u" by simp
  have a: "2 ^ 52 * ?u = 2 powi binade x"
    by (rule pw_shift [symmetric]) simp
  have b: "2 ^ 53 * ?u = 2 powi (binade x + 1)"
    by (rule pw_shift [symmetric]) simp
  from binade_bounds(1) [OF assms] a have "2 ^ 52 * ?u \<le> x" by simp
  with u have "2 ^ 52 \<le> x / ?u" by (simp only: pos_le_divide_eq)
  then show "of_int (2 ^ 52) \<le> x / ?u" by simp
  from binade_bounds(2) [OF assms] b have "x \<le> 2 ^ 53 * ?u" by simp
  with u have "x / ?u \<le> 2 ^ 53" by (simp only: pos_divide_le_eq)
  then show "x / ?u \<le> of_int (2 ^ 53)" by simp
qed

lemma nearest_double_bracket:
  assumes "0 < x"
  shows "2 powi binade x \<le> nearest_double x" and "nearest_double x \<le> 2 powi (binade x + 1)"
proof -
  let ?u = "(2::rat) powi (binade x - 52)"
  have u: "0 < ?u" by simp
  have a: "2 powi binade x = 2 ^ 52 * ?u"
    by (rule pw_shift) simp
  have b: "2 powi (binade x + 1) = 2 ^ 53 * ?u"
    by (rule pw_shift) simp
  from round_even_ge [OF mantissa_bounds(1) [OF assms]]
  have "(of_int (2 ^ 52) :: rat) \<le> of_int (round_even (x / ?u))" by (simp only: of_int_le_iff)
  then have "2 ^ 52 * ?u \<le> of_int (round_even (x / ?u)) * ?u"
    using u by (simp only: mult_le_cancel_right_pos) simp
  then show "2 powi binade x \<le> nearest_double x"
    by (simp only: a nearest_double_pos [OF assms])
  from round_even_le [OF mantissa_bounds(2) [OF assms]]
  have "(of_int (round_even (x / ?u)) :: rat) \<le> of_int (2 ^ 53)" by (simp only: of_int_le_iff)
  then have "of_int (round_even (x / ?u)) * ?u \<le> 2 ^ 53 * ?u"
    using u by (simp only: mult_le_cancel_right_pos) simp
  then show "nearest_double x \<le> 2 powi (binade x + 1)"
    by (simp only: b nearest_double_pos [OF assms])
qed

lemma nearest_double_mono:
  assumes "x \<le> y"
  shows "nearest_double x \<le> nearest_double y"
proof (cases "x \<le> 0")
  case True
  then have "nearest_double x = 0" by (simp add: nearest_double_def)
  with nearest_double_nonneg [of y] show ?thesis by simp
next
  case False
  then have x: "0 < x" by simp
  with assms have y: "0 < y" by simp
  from binade_le [OF x assms] have le: "binade x \<le> binade y" .
  show ?thesis
  proof (cases "binade x = binade y")
    case True
    let ?u = "(2::rat) powi (binade y - 52)"
    have u: "0 < ?u" by simp
    from assms u have "x / ?u \<le> y / ?u" by (intro divide_right_mono) simp_all
    from round_even_mono [OF this]
    have "(of_int (round_even (x / ?u)) :: rat) \<le> of_int (round_even (y / ?u))"
      by (simp only: of_int_le_iff)
    with u have "of_int (round_even (x / ?u)) * ?u \<le> of_int (round_even (y / ?u)) * ?u"
      by (simp only: mult_le_cancel_right_pos)
    then show ?thesis
      by (simp only: nearest_double_pos [OF x] nearest_double_pos [OF y] True)
  next
    case False
    with le have "binade x + 1 \<le> binade y" by simp
    from pw_mono [OF this] nearest_double_bracket(2) [OF x] nearest_double_bracket(1) [OF y]
    show ?thesis by simp
  qed
qed

lemma nearest_double_upper:
  assumes "0 < x"
  shows "nearest_double x \<le> x + x / 2 ^ 53"
proof -
  let ?u = "(2::rat) powi (binade x - 52)"
  have u: "0 < ?u" by simp
  have "(of_int (round_even (x / ?u)) :: rat) \<le> x / ?u + 1 / 2" by (rule round_even_upper)
  with u have "of_int (round_even (x / ?u)) * ?u \<le> (x / ?u + 1 / 2) * ?u"
    by (simp only: mult_le_cancel_right_pos)
  also have "\<dots> = x + ?u / 2" using u by (simp add: algebra_simps)
  finally have a: "nearest_double x \<le> x + ?u / 2" by (simp only: nearest_double_pos [OF assms])
  have "2 ^ 52 * ?u = 2 powi binade x"
    by (rule pw_shift [symmetric]) simp
  with binade_bounds(1) [OF assms] have "2 ^ 52 * ?u \<le> x" by simp
  then have "?u / 2 \<le> x / 2 ^ 53" by simp
  with a show ?thesis by simp
qed

lemma binade_less:
  assumes "0 < x" and "x < 2 powi k"
  shows "binade x < k"
proof -
  from binade_bounds(1) [OF assms(1)] assms(2) have "(2::rat) powi binade x < 2 powi k" by simp
  then show ?thesis by (rule pw_less_cancel)
qed

lemma nearest_double_exact:
  assumes "0 < n" and "n < 2 ^ 53"
  shows "nearest_double (of_int n * 2 powi j) = of_int n * 2 powi j"
proof -
  define x where "x = rat_of_int n * 2 powi j"
  define u where "u = (2::rat) powi (binade x - 52)"
  from assms(1) have x: "0 < x" by (simp add: x_def)
  have u: "0 < u" by (simp add: u_def)
  have "x < 2 ^ 53 * 2 powi j"
  proof -
    from assms(2) have "rat_of_int n < of_int (2 ^ 53)" by (simp only: of_int_less_iff)
    then show ?thesis by (simp add: x_def)
  qed
  also have "2 ^ 53 * 2 powi j = (2::rat) powi (j + 53)"
    by (rule pw_shift [symmetric]) simp
  finally have "binade x < j + 53" by (rule binade_less [OF x])
  then have d: "0 \<le> j - (binade x - 52)" by simp
  define i where "i = nat (j - (binade x - 52))"
  have "(2::rat) powi j = 2 ^ i * u"
    unfolding u_def using d by (intro pw_shift) (simp add: i_def)
  then have xu: "x = of_int (n * 2 ^ i) * u" by (simp add: x_def)
  with u have m: "x / u = of_int (n * 2 ^ i)" by simp
  have "nearest_double x = of_int (round_even (x / u)) * u"
    unfolding u_def by (rule nearest_double_pos [OF x])
  also have "\<dots> = of_int (n * 2 ^ i) * u"
    by (simp only: m round_even_of_int)
  also have "\<dots> = x" by (simp only: xu [symmetric])
  finally show ?thesis by (simp only: x_def)
qed

lemma nearest_double_of_nat:
  assumes "n < 2 ^ 53"
  shows "nearest_double (of_nat n) = of_nat n"
proof (cases "n = 0")
  case True
  then show ?thesis by (simp add: nearest_double_def)
next
  case False
  then have p: "0 < int n" by simp
  from assms have "int n < int (2 ^ 53)" by (simp only: of_nat_less_iff)
  then have q: "int n < 2 ^ 53" by simp
  from nearest_double_exact [OF p q, of 0] show ?thesis by simp
qed

lemma nearest_double_half:
  assumes "0 < n" and "n < 2 ^ 53"
  shows "nearest_double (of_int n / 2) = of_int n / 2"
  using nearest_double_exact [OF assms, of "- 1"] by (simp add: power_int_minus field_simps)

lemma nearest_double_pow2: "nearest_double (2 ^ k) = 2 ^ k"
  using nearest_double_exact [of 1 "int k"] by simp

lemma to_number_finite:
  assumes "nearest_double x \<le> 2 ^ 71"
  shows "to_number x = Finite (nearest_double x)"
proof -
  have "\<not> (0 < nearest_double x \<and> 1024 \<le> binade (nearest_double x))"
  proof
    assume a: "0 < nearest_double x \<and> 1024 \<le> binade (nearest_double x)"
    then have "(2::rat) powi 1024 \<le> 2 powi binade (nearest_double x)" by (intro pw_mono) simp
    also from a have "\<dots> \<le> nearest_double x" by (intro binade_bounds(1)) simp
    also note assms
    also have "(2::rat) ^ 71 = 2 powi 71" by simp
    finally have "(2::rat) powi 1024 \<le> 2 powi 71" .
    moreover have "(2::rat) powi 71 < 2 powi 1024"
      by (rule power_int_strict_increasing) simp_all
    ultimately show False by simp
  qed
  then show ?thesis by (simp add: to_number_def Let_def)
qed

lemma percent_finite:
  assumes "0 < t" and "t < 2 ^ 64" and "l \<le> t"
  shows "percent l t = Finite (of_int (round (quotient_double l t)))"
proof -
  let ?dl = "nearest_double (of_nat l)" and ?dt = "nearest_double (of_nat t)"
  let ?p = "nearest_double (?dl * 100)"
  have t64: "?dt \<le> 2 ^ 64"
  proof -
    from assms(2) have "t \<le> 2 ^ 64" by simp
    then have "rat_of_nat t \<le> of_nat (2 ^ 64)" by (simp only: of_nat_le_iff)
    then have "rat_of_nat t \<le> 2 ^ 64" by simp
    from nearest_double_mono [OF this] show ?thesis by (simp only: nearest_double_pow2)
  qed
  have lt: "?dl \<le> ?dt"
    using assms(3) by (intro nearest_double_mono) simp
  have t1: "1 \<le> ?dt"
  proof -
    from assms(1) have "(1::rat) \<le> of_nat t" by simp
    from nearest_double_mono [OF this] nearest_double_pow2 [of 0] show ?thesis by simp
  qed
  have p71: "?p \<le> 2 ^ 71"
  proof -
    from lt t64 have "?dl * 100 \<le> 2 ^ 64 * 128" by simp
    also have "(2::rat) ^ 64 * 128 = 2 ^ 71" by simp
    finally have "?dl * 100 \<le> 2 ^ 71" .
    from nearest_double_mono [OF this] show ?thesis by (simp only: nearest_double_pow2)
  qed
  have p0: "0 \<le> ?p" by (rule nearest_double_nonneg)
  have q71: "quotient_double l t \<le> 2 ^ 71"
  proof -
    from t1 p0 have "?p / ?dt \<le> ?p" by (simp add: divide_le_eq mult_le_cancel_left1)
    with p71 have "?p / ?dt \<le> 2 ^ 71" by simp
    from nearest_double_mono [OF this] show ?thesis
      by (simp only: nearest_double_pow2 quotient_double_def)
  qed
  from t64 have a: "number_of_nat t = Finite ?dt"
    unfolding number_of_nat_def by (intro to_number_finite) simp
  from lt t64 have b: "number_of_nat l = Finite ?dl"
    unfolding number_of_nat_def by (intro to_number_finite) simp
  from p71 have c: "to_number (?dl * 100) = Finite ?p" by (rule to_number_finite)
  from q71 have d: "to_number (?p / ?dt) = Finite (quotient_double l t)"
    unfolding quotient_double_def by (rule to_number_finite)
  from t1 have nz: "?dt \<noteq> 0" by simp
  show ?thesis
    by (simp add: percent_def a b c d nz js_times_def js_divide_def Math_round_def)
qed

lemma quotient_double_nonneg: "0 \<le> quotient_double l t"
  unfolding quotient_double_def by (rule nearest_double_nonneg)

lemma quotient_double_mono:
  assumes "l \<le> l'"
  shows "quotient_double l t \<le> quotient_double l' t"
proof -
  from assms have "nearest_double (of_nat l) \<le> nearest_double (of_nat l')"
    by (intro nearest_double_mono) simp
  then have "nearest_double (of_nat l) * 100 \<le> nearest_double (of_nat l') * 100" by simp
  then have "nearest_double (nearest_double (of_nat l) * 100) \<le>
             nearest_double (nearest_double (of_nat l') * 100)"
    by (rule nearest_double_mono)
  then have "nearest_double (nearest_double (of_nat l) * 100) / nearest_double (of_nat t) \<le>
             nearest_double (nearest_double (of_nat l') * 100) / nearest_double (of_nat t)"
    by (rule divide_right_mono) (rule nearest_double_nonneg)
  then show ?thesis unfolding quotient_double_def by (rule nearest_double_mono)
qed

lemma quotient_double_le:
  assumes "0 < t" and "l \<le> t"
  shows "quotient_double l t \<le> 401 / 4"
proof -
  let ?dt = "nearest_double (of_nat t)"
  have t1: "1 \<le> ?dt"
  proof -
    from assms(1) have "(1::rat) \<le> of_nat t" by simp
    from nearest_double_mono [OF this] nearest_double_pow2 [of 0] show ?thesis by simp
  qed
  then have pos: "0 < ?dt * 100" by simp
  have "quotient_double l t \<le> quotient_double t t"
    using assms(2) by (rule quotient_double_mono)
  moreover have "quotient_double t t \<le> 401 / 4"
  proof -
    from nearest_double_upper [OF pos]
    have "nearest_double (?dt * 100) \<le> ?dt * (100 + 100 / 2 ^ 53)"
      by (simp add: algebra_simps)
    also have "\<dots> \<le> ?dt * (401 / 4)"
      using t1 by (intro mult_left_mono) simp_all
    finally have "nearest_double (?dt * 100) / ?dt \<le> 401 / 4"
      using t1 by (simp add: divide_le_eq mult.commute)
    then have "quotient_double t t \<le> nearest_double (401 / 4)"
      unfolding quotient_double_def by (rule nearest_double_mono)
    moreover have "nearest_double (401 / 4) = 401 / 4"
      using nearest_double_exact [of 401 "- 2"] by (simp add: power_int_minus)
    ultimately show ?thesis by simp
  qed
  ultimately show ?thesis by simp
qed

lemma percent_range:
  assumes "0 < t" and "l \<le> t"
  shows "0 \<le> round (quotient_double l t)" and "round (quotient_double l t) \<le> 100"
proof -
  have "round (0::rat) \<le> round (quotient_double l t)"
    by (rule round_mono) (rule quotient_double_nonneg)
  then show "0 \<le> round (quotient_double l t)" by simp
  have "round (quotient_double l t) \<le> round (401 / 4 :: rat)"
    by (rule round_mono) (rule quotient_double_le [OF assms])
  also have "round (401 / 4 :: rat) = 100" by code_simp
  finally show "round (quotient_double l t) \<le> 100" .
qed

lemma nearest_double_upper_ulp:
  assumes "0 < x"
  shows "nearest_double x \<le> x + 2 powi (binade x - 52) / 2"
proof -
  let ?u = "(2::rat) powi (binade x - 52)"
  have u: "0 < ?u" by simp
  have "(of_int (round_even (x / ?u)) :: rat) \<le> x / ?u + 1 / 2" by (rule round_even_upper)
  with u have "of_int (round_even (x / ?u)) * ?u \<le> (x / ?u + 1 / 2) * ?u"
    by (simp only: mult_le_cancel_right_pos)
  also have "\<dots> = x + ?u / 2" using u by (simp add: algebra_simps)
  finally show ?thesis by (simp only: nearest_double_pos [OF assms])
qed

lemma half_step:
  fixes a t k :: int
  assumes t: "0 < t" and lt: "rat_of_int a / of_int t < of_int k + 1 / 2"
  shows "rat_of_int a / of_int t + 1 / (2 * of_int t) \<le> of_int k + 1 / 2"
proof -
  from t have rt: "(0::rat) < of_int t" by simp
  from lt rt have "rat_of_int a < (of_int k + 1 / 2) * of_int t"
    by (simp only: pos_divide_less_eq)
  then have "rat_of_int (2 * a) < of_int ((2 * k + 1) * t)"
    by (simp add: algebra_simps)
  then have "2 * a < (2 * k + 1) * t" by (simp only: of_int_less_iff)
  then have "2 * a + 1 \<le> (2 * k + 1) * t" by simp
  then have "rat_of_int (2 * a + 1) \<le> of_int ((2 * k + 1) * t)" by (simp only: of_int_le_iff)
  then have "2 * rat_of_int a + 1 \<le> (2 * of_int k + 1) * of_int t" by simp
  then have "(2 * rat_of_int a + 1) / (2 * of_int t) \<le> (2 * of_int k + 1) / 2"
    using rt by (simp add: pos_divide_le_eq)
  then show ?thesis using rt by (simp add: field_simps)
qed

lemma quotient_double_exact_operands:
  assumes "t < 2 ^ 46" and "l \<le> t"
  shows "quotient_double l t = nearest_double (rat_of_nat (l * 100) / rat_of_nat t)"
proof -
  from assms have l46: "l < 2 ^ 46" by simp
  have "(2::nat) ^ 46 \<le> 2 ^ 53" by simp
  with assms(1) l46 have "t < 2 ^ 53" and "l < 2 ^ 53" by simp_all
  then have a: "nearest_double (of_nat t) = of_nat t" and b: "nearest_double (of_nat l) = of_nat l"
    by (simp_all only: nearest_double_of_nat)
  from l46 have "l * 100 < 2 ^ 46 * 128" by simp
  also have "(2::nat) ^ 46 * 128 = 2 ^ 53" by simp
  finally have "nearest_double (of_nat (l * 100)) = of_nat (l * 100)"
    by (rule nearest_double_of_nat)
  then have c: "nearest_double (rat_of_nat l * 100) = of_nat (l * 100)" by simp
  show ?thesis by (simp only: quotient_double_def a b c)
qed

lemma quotient_double_round:
  assumes "0 < t" and "t < 2 ^ 46" and "l \<le> t"
  shows "round (quotient_double l t) = round (rat_of_nat (l * 100) / rat_of_nat t)"
proof -
  define x where "x = rat_of_nat (l * 100) / rat_of_nat t"
  define k where "k = round x"
  have q: "quotient_double l t = nearest_double x"
    unfolding x_def by (rule quotient_double_exact_operands [OF assms(2,3)])
  from assms(1) have rt: "(0::rat) < of_nat t" by simp
  have x0: "0 \<le> x" by (simp add: x_def)
  have x100: "x \<le> 100"
  proof -
    from assms(3) have "l * 100 \<le> 100 * t" by simp
    then have "rat_of_nat (l * 100) \<le> of_nat (100 * t)" by (simp only: of_nat_le_iff)
    then have "rat_of_nat (l * 100) \<le> 100 * of_nat t" by simp
    with rt show ?thesis unfolding x_def by (simp only: pos_divide_le_eq)
  qed
  have k0: "0 \<le> k"
  proof -
    from x0 have "round (0::rat) \<le> round x" by (rule round_mono)
    then show ?thesis by (simp add: k_def)
  qed
  have k100: "k \<le> 100"
  proof -
    from x100 have "round x \<le> round (100::rat)" by (rule round_mono)
    then show ?thesis by (simp add: k_def)
  qed
  have klo: "of_int k - 1 / 2 \<le> x" and khi: "x < of_int k + 1 / 2"
    unfolding k_def round_def by linarith+
  have up: "nearest_double x < of_int k + 1 / 2"
  proof (cases "x = 0")
    case True
    with k0 show ?thesis by (simp add: nearest_double_def)
  next
    case False
    with x0 have xp: "0 < x" by simp
    have "x < 2 powi 7" using x100 by simp
    from binade_less [OF xp this] have "binade x - 52 \<le> - 46" by simp
    from pw_mono [OF this] have "(2::rat) powi (binade x - 52) / 2 \<le> 2 powi (- 46) / 2" by simp
    also have "(2::rat) powi (- 46) / 2 = 1 / 2 ^ 47" by (simp add: power_int_minus field_simps)
    finally have u: "(2::rat) powi (binade x - 52) / 2 \<le> 1 / 2 ^ 47" .
    from assms(2) have "2 * t < 2 ^ 47" by simp
    then have "rat_of_nat (2 * t) < of_nat (2 ^ 47)" by (simp only: of_nat_less_iff)
    then have "2 * rat_of_nat t < 2 ^ 47" by simp
    with rt have s: "1 / 2 ^ 47 < 1 / (2 * rat_of_nat t)"
      by (intro divide_strict_left_mono) simp_all
    have "rat_of_int (int (l * 100)) / of_int (int t) + 1 / (2 * of_int (int t)) \<le>
          of_int k + 1 / 2"
    proof (rule half_step)
      show "0 < int t" using assms(1) by simp
      show "rat_of_int (int (l * 100)) / of_int (int t) < of_int k + 1 / 2"
        using khi by (simp add: x_def)
    qed
    then have h: "x + 1 / (2 * rat_of_nat t) \<le> of_int k + 1 / 2" by (simp add: x_def)
    from nearest_double_upper_ulp [OF xp] u s h show ?thesis by linarith
  qed
  have low: "of_int k - 1 / 2 \<le> nearest_double x"
  proof (cases "k = 0")
    case True
    with nearest_double_nonneg [of x] show ?thesis by simp
  next
    case False
    with k0 have p: "0 < 2 * k - 1" by simp
    from k100 have b: "2 * k - 1 < 2 ^ 53" by simp
    from klo have "rat_of_int (2 * k - 1) / 2 \<le> x" by simp
    from nearest_double_mono [OF this] nearest_double_half [OF p b]
    show ?thesis by simp
  qed
  from low up have "round (nearest_double x) = k"
    by (intro round_unique) linarith+
  then show ?thesis by (simp only: q k_def x_def)
qed

subsection \<open>Progress values of a transfer\<close>

lemma percentCompleted_finite:
  assumes "0 < total e" and "total e < 2 ^ 64" and "loaded e \<le> total e"
  shows "percentCompleted e = Finite (of_int (round (quotient_double (loaded e) (total e))))"
  unfolding percentCompleted_def by (rule percent_finite [OF assms])

lemma transfer_events_head:
  assumes "transfer_events (e # es)"
  shows "0 < total e \<and> total e < 2 ^ 64 \<and> loaded e \<le> total e \<and>
         list_all (\<lambda>x. loaded e \<le> loaded x \<and> total x = total e \<and> loaded x \<le> total x) es"
  using assms
proof (induction es arbitrary: e)
  case Nil
  then show ?case by simp
next
  case (Cons e' es)
  from Cons.prems have h: "loaded e \<le> loaded e'" "total e = total e'"
    and t: "transfer_events (e' # es)" by simp_all
  from Cons.IH [OF t] have i: "0 < total e'" "total e' < 2 ^ 64" "loaded e' \<le> total e'"
    and j: "list_all (\<lambda>x. loaded e' \<le> loaded x \<and> total x = total e' \<and>
              loaded x \<le> total x) es" by simp_all
  from j h have "list_all (\<lambda>x. loaded e \<le> loaded x \<and> total x = total e \<and>
              loaded x \<le> total x) es"
    by (induction es) simp_all
  with h i show ?case by simp
qed

lemma transfer_events_tail: "transfer_events (e # es) \<Longrightarrow> transfer_events es"
  by (cases es) simp_all

lemma progress_within:
  assumes "transfer_events events"
  shows "list_all within_0_100 (map percentCompleted events)"
  using assms
proof (induction events)
  case Nil
  then show ?case by simp
next
  case (Cons e es)
  from transfer_events_head [OF Cons.prems]
  have t: "0 < total e" and b: "total e < 2 ^ 64" and l: "loaded e \<le> total e"
    by simp_all
  from percent_range [OF t l]
  have "within_0_100 (percentCompleted e)"
    by (simp add: percentCompleted_finite [OF t b l])
  with Cons.IH [OF transfer_events_tail [OF Cons.prems]] show ?case by simp
qed

lemma progress_sorted:
  assumes "transfer_events events"
  shows "sorted_wrt js_le (map percentCompleted events)"
  using assms
proof (induction events)
  case Nil
  then show ?case by simp
next
  case (Cons e es)
  from transfer_events_head [OF Cons.prems]
  have t: "0 < total e" and b: "total e < 2 ^ 64" and l: "loaded e \<le> total e"
    and h: "list_all (\<lambda>x. loaded e \<le> loaded x \<and> total x = total e \<and>
              loaded x \<le> total x) es" by simp_all
  have "js_le (percentCompleted e) (percentCompleted x)" if "x \<in> set es" for x
  proof -
    from h have "\<forall>x\<in>set es. loaded e \<le> loaded x \<and> total x = total e \<and>
        loaded x \<le> total x"
      by (simp only: list_all_iff)
    from bspec [OF this that] have le: "loaded e \<le> loaded x" and eq: "total x = total e"
      and lx: "loaded x \<le> total x"
      by blast+
    from t b eq have tx: "0 < total x" and bx: "total x < 2 ^ 64" by simp_all
    from quotient_double_mono [OF le, of "total e"]
    have "round (quotient_double (loaded e) (total e)) \<le>
          round (quotient_double (loaded x) (total e))"
      by (rule round_mono)
    then show ?thesis
      by (simp add: percentCompleted_finite [OF t b l] percentCompleted_finite [OF tx bx lx] eq)
  qed
  with Cons.IH [OF transfer_events_tail [OF Cons.prems]] show ?case by simp
qed

lemma progress_from_zero:
  assumes "list_all within_0_100 ps"
  shows "list_all (js_le (Finite 0)) ps"
  using assms
proof (induction ps)
  case Nil
  then show ?case by simp
next
  case (Cons p ps)
  then show ?case by (cases p) simp_all
qed

lemma progress_exact:
  assumes "transfer_events events"
  shows "list_all (\<lambda>e. total e < 2 ^ 46 \<longrightarrow>
           percentCompleted e =
             Finite (of_int (round (rat_of_nat (loaded e * 100) / rat_of_nat (total e)))))
           events"
  using assms
proof (induction events)
  case Nil
  then show ?case by simp
next
  case (Cons e es)
  from transfer_events_head [OF Cons.prems]
  have t: "0 < total e" and b: "total e < 2 ^ 64" and l: "loaded e \<le> total e"
    by simp_all
  have "percentCompleted e =
          Finite (of_int (round (rat_of_nat (loaded e * 100) / rat_of_nat (total e))))"
    if s: "total e < 2 ^ 46"
    by (simp only: percentCompleted_finite [OF t b l] quotient_double_round [OF t s l])
  with Cons.IH [OF transfer_events_tail [OF Cons.prems]] show ?case by simp
qed

section \<open>Properties of the web-search heuristic\<close>

text \<open>
  Claim C3. \<open>needsWebSearch\<close> answers true on "What's the latest stock price?" and
  false on "How do I open my document?" and on "Summarize chapter two". On the second
  input a question word is present and the word "document" occurs, which switches the
  question signal off, and neither the time pattern nor a trigger word matches.
\<close>

theorem needsWebSearch_examples:
  "needsWebSearch ''What's the latest stock price?'' \<and>
   \<not> needsWebSearch ''How do I open my document?'' \<and>
   regex_test questionPattern (toLowerCase ''How do I open my document?'') \<and>
   includes_js (toLowerCase ''How do I open my document?'') ''document'' \<and>
   \<not> hasTimeReference (toLowerCase ''How do I open my document?'') \<and>
   \<not> hasTriggerWord (toLowerCase ''How do I open my document?'') \<and>
   \<not> needsWebSearch ''Summarize chapter two''"
  by code_simp

text \<open>
  Claim C10. The time pattern is matched against raw substrings of the lower-cased text
  and is not subject to the document/file exclusion: whenever the lower-cased message
  contains "now" anywhere, also inside a longer word, \<open>needsWebSearch\<close> is true,
  whatever else the message contains.
\<close>

theorem needsWebSearch_now_substring:
  assumes "includes_js (toLowerCase message) ''now''"
  shows "needsWebSearch message"
proof -
  from assms have "regex_test timeReferencePattern (toLowerCase message)"
    by (simp add: regex_test_def timeReferencePattern_def)
  then show ?thesis
    by (simp add: needsWebSearch_def hasTimeReference_def)
qed

theorem needsWebSearch_now_substring_witness:
  "includes_js (toLowerCase ''I acknowledge this document'') ''now'' \<and>
   includes_js (toLowerCase ''I acknowledge this document'') ''document'' \<and>
   needsWebSearch ''I acknowledge this document''"
proof -
  have h: "includes_js (toLowerCase ''I acknowledge this document'') ''now''"
    by code_simp
  have d: "includes_js (toLowerCase ''I acknowledge this document'') ''document''"
    by code_simp
  from h d needsWebSearch_now_substring [OF h] show ?thesis by simp
qed

section \<open>Properties of the conversation store\<close>

text \<open>
  Claim C1, counterexample. The spec has restore yield the empty sequence on a stored
  value that fails to parse. With the text \<^verbatim>\<open>{\<close> under the key, \<^verbatim>\<open>JSON.parse\<close> throws,
  the mount effect has no handler, and the \<^verbatim>\<open>SyntaxError\<close> leaves it: restore does not
  yield the empty sequence.
\<close>

theorem restore_malformed_raises:
  "restore (Map.empty(''chatMessages'' \<mapsto> ''{'')) = Inl SyntaxError \<and>
   restore (Map.empty(''chatMessages'' \<mapsto> ''{'')) \<noteq> Inr (messages_json [])"
proof -
  have "JSON_parse ''{'' = Inl SyntaxError" by code_simp
  then show ?thesis by (simp add: restore_def getItem_def)
qed

text \<open>
  Claim C1, as amended. When no prior state exists (the key is absent or holds the empty
  text), restore yields the empty sequence. When the stored value is the text that persist
  wrote for a message log, restore yields that log. When the stored value is a non-empty
  text that fails to JSON-parse, the exception of the parser reaches the caller of
  restore.
\<close>

theorem restore_outcomes:
  "(getItem store ''chatMessages'' = None \<or> getItem store ''chatMessages'' = Some [] \<longrightarrow>
      restore store = Inr (messages_json [])) \<and>
   (getItem store ''chatMessages'' = Some (JSON_stringify msgs) \<longrightarrow>
      restore store = Inr (messages_json msgs)) \<and>
   (getItem store ''chatMessages'' = Some saved \<and> saved \<noteq> [] \<and> JSON_parse saved = Inl e \<longrightarrow>
      restore store = Inl e)"
  by (auto simp: restore_def JSON_stringify_nonempty JSON_parse_stringify)

theorem restore_outcomes_witness:
  "restore Map.empty = Inr (messages_json []) \<and>
   restore (Map.empty(''chatMessages'' \<mapsto> [])) = Inr (messages_json []) \<and>
   restore (Map.empty(''chatMessages'' \<mapsto> JSON_stringify [\<lparr>role = User, content = ''hi''\<rparr>])) =
     Inr (messages_json [\<lparr>role = User, content = ''hi''\<rparr>]) \<and>
   restore (Map.empty(''chatMessages'' \<mapsto> ''[1,'')) = Inl SyntaxError"
proof -
  have p: "JSON_parse ''[1,'' = Inl SyntaxError" by code_simp
  show ?thesis
    using restore_outcomes [of Map.empty "[]" "[]" SyntaxError]
      restore_outcomes [of "Map.empty(''chatMessages'' \<mapsto> [])" "[]" "[]" SyntaxError]
      restore_outcomes [of "Map.empty(''chatMessages'' \<mapsto> JSON_stringify [\<lparr>role = User, content = ''hi''\<rparr>])"
         "[\<lparr>role = User, content = ''hi''\<rparr>]" "[]" SyntaxError]
      restore_outcomes [of "Map.empty(''chatMessages'' \<mapsto> ''[1,'')" "[]" "''[1,''" SyntaxError] p
    by (simp add: getItem_def)
qed

text \<open>
  Claim C4. From every conversation state, after appending \<open>m1\<close> and then \<open>m2\<close>
  the log in memory is the prior log followed by \<open>m1\<close>, \<open>m2\<close>; after each append the
  durable slot holds the serialization of the complete log in memory; and restoring from
  the store yields exactly the prior log followed by \<open>m1\<close>, \<open>m2\<close>, and no other
  sequence.
\<close>

theorem persistence_round_trip:
  "messages (fst (append m2 (append m1 (s, store)))) = messages s @ [m1, m2] \<and>
   getItem (snd (append m1 (s, store))) ''chatMessages'' =
     Some (JSON_stringify (messages s @ [m1])) \<and>
   getItem (snd (append m2 (append m1 (s, store)))) ''chatMessages'' =
     Some (JSON_stringify (messages s @ [m1, m2])) \<and>
   restore (snd (append m2 (append m1 (s, store)))) = Inr (messages_json (messages s @ [m1, m2])) \<and>
   (restore (snd (append m2 (append m1 (s, store)))) = Inr (messages_json msgs) \<longleftrightarrow>
      msgs = messages s @ [m1, m2])"
proof -
  have r: "restore (snd (append m2 (append m1 (s, store)))) =
           Inr (messages_json (messages s @ [m1, m2]))"
    by (simp add: append_def Let_def restore_persist appendMessage_def)
  have g: "getItem (snd (append m1 (s, store))) ''chatMessages'' =
           Some (JSON_stringify (messages s @ [m1]))"
    "getItem (snd (append m2 (append m1 (s, store)))) ''chatMessages'' =
           Some (JSON_stringify (messages s @ [m1, m2]))"
    by (simp_all add: append_def Let_def persist_def appendMessage_def getItem_def setItem_def)
  have m: "messages (fst (append m2 (append m1 (s, store)))) = messages s @ [m1, m2]"
    by (simp add: append_def Let_def appendMessage_def)
  from r g m show ?thesis
    by (auto simp: messages_json_eq_iff)
qed

section \<open>Properties of the handlers\<close>

text \<open>
  Claim C2. When the input is not blank and the chat call fails, \<open>handleSendMessage\<close>
  returns normally, having sent one chat request; the log has grown by exactly two
  messages, the user's message followed by the assistant message "Sorry, I encountered an
  error. Please try again."; and \<open>isLoading\<close> is false.
\<close>

theorem handleSendMessage_failure:
  assumes "trim (inputMessage s) \<noteq> []"
  shows "\<exists>s'. handleSendMessage (Inl error) s =
           Inr (s', [ChatRequest (messages s @ [\<lparr>role = User, content = inputMessage s\<rparr>])
                       (needsWebSearch (inputMessage s))]) \<and>
         messages s' = messages s @
           [\<lparr>role = User, content = inputMessage s\<rparr>,
            \<lparr>role = Assistant, content = ''Sorry, I encountered an error. Please try again.''\<rparr>] \<and>
         length (messages s') = length (messages s) + 2 \<and>
         isLoading s' = False"
  using assms
  by (simp add: handleSendMessage_def Let_def sendMessage_def appendMessage_def fallbackMessage_def)

theorem handleSendMessage_failure_witness:
  "trim ''hello'' \<noteq> [] \<and>
   (\<exists>s'. handleSendMessage (Inl RequestFailed)
           \<lparr>messages = [], inputMessage = ''hello'', isLoading = False, documents = []\<rparr> =
           Inr (s', [ChatRequest [\<lparr>role = User, content = ''hello''\<rparr>] False]) \<and>
         messages s' =
           [\<lparr>role = User, content = ''hello''\<rparr>,
            \<lparr>role = Assistant, content = ''Sorry, I encountered an error. Please try again.''\<rparr>] \<and>
         isLoading s' = False)"
proof -
  have t: "trim ''hello'' \<noteq> []" by code_simp
  have n: "needsWebSearch ''hello'' = False" by code_simp
  from handleSendMessage_failure
         [of "\<lparr>messages = [], inputMessage = ''hello'', isLoading = False, documents = []\<rparr>"
             RequestFailed] t n
  show ?thesis by auto
qed

text \<open>
  Claim C5. When the input is empty after trimming, \<open>handleSendMessage\<close> returns
  normally with the state it was given and has sent no request, whatever the chat service
  would have answered.
\<close>

theorem handleSendMessage_blank:
  assumes "trim (inputMessage s) = []"
  shows "handleSendMessage outcome s = Inr (s, [])"
  using assms by (simp add: handleSendMessage_def)

theorem handleSendMessage_blank_witness:
  "trim [CHR '' '', CHR 0x09, CHR '' ''] = [] \<and>
   handleSendMessage (Inr ''reply'')
     \<lparr>messages = [], inputMessage = [CHR '' '', CHR 0x09, CHR '' ''], isLoading = False,
      documents = []\<rparr> =
   Inr (\<lparr>messages = [], inputMessage = [CHR '' '', CHR 0x09, CHR '' ''], isLoading = False,
         documents = []\<rparr>, [])"
proof -
  have t: "trim [CHR '' '', CHR 0x09, CHR '' ''] = []" by code_simp
  from handleSendMessage_blank
         [of "\<lparr>messages = [], inputMessage = [CHR '' '', CHR 0x09, CHR '' ''],
               isLoading = False, documents = []\<rparr>" "Inr ''reply''"] t
  show ?thesis by simp
qed

text \<open>
  Claim C6. When the remote delete of the identifier \<open>d\<close> succeeds, the registry
  afterwards has no entry with that identifier, it is the prior registry without the
  entries of that identifier (the others unchanged, in their order), and exactly one
  message, the confirmation, has been appended to the log.
\<close>

theorem handleDocumentDelete_success:
  "\<exists>s'. handleDocumentDelete (Inr data) d s = Inr (s', [DeleteRequest d]) \<and>
        list_all (\<lambda>doc. document_id doc \<noteq> d) (documents s') \<and>
        documents s' = filter (\<lambda>doc. document_id doc \<noteq> d) (documents s) \<and>
        subseq (documents s') (documents s) \<and>
        messages s' = messages s @
          [\<lparr>role = Assistant, content = ''Document has been deleted successfully.''\<rparr>]"
  by (simp add: handleDocumentDelete_def deleteDocument_def appendMessage_def deletedMessage_def
      list_all_iff)

text \<open>
  Claim C7. When the remote delete fails, the handler returns normally, the registry is
  equal to the one before the call, the error message of the assistant has been appended
  to the log, and no other part of the state has changed. The component keeps no flag
  for the document lane: the lane is idle again once the handler has returned.
\<close>

theorem handleDocumentDelete_failure:
  "\<exists>s'. handleDocumentDelete (Inl error) d s = Inr (s', [DeleteRequest d]) \<and>
        documents s' = documents s \<and>
        messages s' = messages s @
          [\<lparr>role = Assistant, content = ''Error deleting document. Please try again.''\<rparr>] \<and>
        isLoading s' = isLoading s \<and> inputMessage s' = inputMessage s"
  by (simp add: handleDocumentDelete_def deleteDocument_def appendMessage_def
      deleteErrorMessage_def)

text \<open>
  Claim C9. For every operation of the coordinator (sending a message, a finished upload,
  a delete) and every outcome of its remote call, the operation returns normally and the
  log before it is a prefix of the log after it.
\<close>

theorem perform_appends:
  "\<exists>s' sent. perform op s = Inr (s', sent) \<and> prefix (messages s) (messages s')"
proof (cases op)
  case (SendMessage outcome)
  then show ?thesis
    by (cases outcome)
      (simp_all add: perform_def handleSendMessage_def Let_def sendMessage_def appendMessage_def)
next
  case (FileUploaded outcome fileName)
  then show ?thesis
    by (cases outcome)
      (simp_all add: perform_def handleFileUpload_def loadDocuments_def fetchDocuments_def
        appendMessage_def)
next
  case (DeleteDocument outcome documentId)
  then show ?thesis
    by (cases outcome)
      (simp_all add: perform_def handleDocumentDelete_def deleteDocument_def appendMessage_def)
qed

section \<open>Properties of the upload\<close>

text \<open>
  Claim C8, counterexample. The spec has every progress value lie within 0 and 100 and
  equal \<open>round (loaded * 100 / total)\<close>. The code neither clamps nor checks the event:
  on a progress event whose total is 0 (length not computable) the value shown is
  \<^verbatim>\<open>Infinity\<close>. And the quotient is a double: for 54295312500005 bytes of
  75937500000007 the double quotient is 71.5 and the value shown is 72, where the exact
  quotient rounds to 71.
\<close>

theorem upload_progress_unclamped:
  "observed (handleUpload [\<lparr>loaded = 512, total = 0\<rparr>] (Inr JNull)
      \<lparr>selectedFile = Some \<lparr>name = ''a.pdf''\<rparr>, isUploading = False, uploadProgress = Finite 0\<rparr>) =
     [Finite 0, Infinity] \<and>
   \<not> list_all within_0_100 (observed (handleUpload [\<lparr>loaded = 512, total = 0\<rparr>] (Inr JNull)
      \<lparr>selectedFile = Some \<lparr>name = ''a.pdf''\<rparr>, isUploading = False, uploadProgress = Finite 0\<rparr>)) \<and>
   transfer_events [\<lparr>loaded = 54295312500005, total = 75937500000007\<rparr>] \<and>
   percentCompleted \<lparr>loaded = 54295312500005, total = 75937500000007\<rparr> = Finite 72 \<and>
   round (rat_of_nat (54295312500005 * 100) / rat_of_nat 75937500000007) = 71"
proof -
  have a: "percentCompleted \<lparr>loaded = 512, total = 0\<rparr> = Infinity"
    by (simp add: percentCompleted_def percent_def number_of_nat_def) code_simp
  have b: "percentCompleted \<lparr>loaded = 54295312500005, total = 75937500000007\<rparr> = Finite 72"
    by (simp add: percentCompleted_def percent_def number_of_nat_def) code_simp
  have c: "round (5429531250000500 / 75937500000007 :: rat) = 71"
    by code_simp
  have d: "transfer_events [\<lparr>loaded = 54295312500005, total = 75937500000007\<rparr>]"
    by simp
  from a b c d show ?thesis
    by (simp add: handleUpload_def uploadDocument_def)
qed

text \<open>
  Claim C8, as amended. For an upload whose progress events carry a fixed positive total
  below \<open>2\<^sup>6\<^sup>4\<close> and byte counts that never decrease nor exceed it: the values shown
  while uploading are the initial 0 followed by
  \<^verbatim>\<open>Math.round((loaded * 100) / total)\<close> of each event, computed in doubles; each
  of them equals \<open>round (loaded * 100 / total)\<close> when the total is below \<open>2\<^sup>4\<^sup>6\<close>;
  and they never decrease and lie within 0 and 100. For every upload, whatever its events
  and whether it succeeds or fails, the handler leaves \<open>isUploading\<close> false and the
  progress 0.
\<close>

theorem upload_progress:
  assumes "selectedFile u = Some f"
  shows "(transfer_events events \<longrightarrow>
            observed (handleUpload events outcome u) = Finite 0 # map percentCompleted events \<and>
            list_all (\<lambda>e. total e < 2 ^ 46 \<longrightarrow>
               percentCompleted e =
                 Finite (of_int (round (rat_of_nat (loaded e * 100) / rat_of_nat (total e)))))
               events \<and>
            sorted_wrt js_le (observed (handleUpload events outcome u)) \<and>
            list_all within_0_100 (observed (handleUpload events outcome u))) \<and>
         isUploading (final (handleUpload events outcome u)) = False \<and>
         uploadProgress (final (handleUpload events outcome u)) = Finite 0"
proof -
  have obs: "observed (handleUpload events outcome u) = Finite 0 # map percentCompleted events"
    using assms by (cases outcome) (simp_all add: handleUpload_def uploadDocument_def)
  have fin: "isUploading (final (handleUpload events outcome u)) = False"
    "uploadProgress (final (handleUpload events outcome u)) = Finite 0"
    using assms by (cases outcome; simp add: handleUpload_def uploadDocument_def)+
  have "sorted_wrt js_le (Finite 0 # map percentCompleted events)"
    if "transfer_events events"
    using progress_sorted [OF that] progress_from_zero [OF progress_within [OF that]]
    by (simp add: list_all_iff)
  moreover have "list_all within_0_100 (Finite 0 # map percentCompleted events)"
    if "transfer_events events"
    using progress_within [OF that] by simp
  ultimately show ?thesis using obs fin progress_exact [of events] by simp
qed

theorem upload_progress_witness:
  "transfer_events
     [\<lparr>loaded = 0, total = 200\<rparr>, \<lparr>loaded = 50, total = 200\<rparr>, \<lparr>loaded = 200, total = 200\<rparr>] \<and>
   observed (handleUpload
     [\<lparr>loaded = 0, total = 200\<rparr>, \<lparr>loaded = 50, total = 200\<rparr>, \<lparr>loaded = 200, total = 200\<rparr>]
     (Inl RequestFailed)
     \<lparr>selectedFile = Some \<lparr>name = ''a.pdf''\<rparr>, isUploading = False, uploadProgress = Finite 0\<rparr>) =
     [Finite 0, Finite 0, Finite 25, Finite 100] \<and>
   sorted_wrt js_le [Finite 0, Finite 0, Finite 25, Finite 100] \<and>
   list_all within_0_100 [Finite 0, Finite 0, Finite 25, Finite 100] \<and>
   uploadProgress (final (handleUpload
     [\<lparr>loaded = 0, total = 200\<rparr>, \<lparr>loaded = 50, total = 200\<rparr>, \<lparr>loaded = 200, total = 200\<rparr>]
     (Inl RequestFailed)
     \<lparr>selectedFile = Some \<lparr>name = ''a.pdf''\<rparr>, isUploading = False, uploadProgress = Finite 0\<rparr>)) =
     Finite 0"
proof -
  have t: "transfer_events
     [\<lparr>loaded = 0, total = 200\<rparr>, \<lparr>loaded = 50, total = 200\<rparr>, \<lparr>loaded = 200, total = 200\<rparr>]"
    by simp
  have p0: "percentCompleted \<lparr>loaded = 0, total = 200\<rparr> = Finite 0"
    by (simp add: percentCompleted_def percent_def number_of_nat_def) code_simp
  have p1: "percentCompleted \<lparr>loaded = 50, total = 200\<rparr> = Finite 25"
    by (simp add: percentCompleted_def percent_def number_of_nat_def) code_simp
  have p2: "percentCompleted \<lparr>loaded = 200, total = 200\<rparr> = Finite 100"
    by (simp add: percentCompleted_def percent_def number_of_nat_def) code_simp
  from upload_progress
         [of "\<lparr>selectedFile = Some \<lparr>name = ''a.pdf''\<rparr>, isUploading = False,
               uploadProgress = Finite 0\<rparr>" "\<lparr>name = ''a.pdf''\<rparr>"
             "[\<lparr>loaded = 0, total = 200\<rparr>, \<lparr>loaded = 50, total = 200\<rparr>,
               \<lparr>loaded = 200, total = 200\<rparr>]" "Inl RequestFailed"] t p0 p1 p2
  show ?thesis by simp
qed

end
